theory Spec2Isabelle
  imports Main "HOL-Library.Word"
begin

unbundle bit_operations_syntax

section \<open>A toy Special Number Field Sieve: machine model\<close>

text \<open>
  The program is a single C file. Its integers are fixed-width and unsigned:
  \<^verbatim>\<open>unsigned __int128\<close> values are \<open>128 word\<close>, \<^verbatim>\<open>uint64_t\<close> is \<open>64 word\<close>,
  \<^verbatim>\<open>uint32_t\<close> is \<open>32 word\<close> and \<^verbatim>\<open>uint8_t\<close> is \<open>8 word\<close>; addition, subtraction,
  multiplication and shifts wrap around as they do in C. The \<^verbatim>\<open>int\<close> counters and
  indices of the program (\<^verbatim>\<open>relation_count\<close>, \<^verbatim>\<open>matrix_rows\<close>, \<^verbatim>\<open>fb_size\<close>, loop
  variables) are non-negative and bounded by the array capacities; they are \<open>nat\<close>.
  The \<^verbatim>\<open>int\<close> arguments \<^verbatim>\<open>degree\<close>, \<^verbatim>\<open>fb_bound\<close> and \<^verbatim>\<open>window\<close> are \<open>int\<close>; signed
  overflow of a loop variable (only possible for arguments next to \<^verbatim>\<open>INT_MAX\<close>) is
  outside the model.

  A call that does not return a value is a value of the model: a division by zero
  traps (\<open>DivisionByZero\<close>), a store outside an array is undefined behaviour
  (\<open>OutOfBounds\<close>), and a loop may never exit (\<open>NoReturn\<close>).
\<close>

type_synonym u128 = "128 word"
type_synonym u64 = "64 word"
type_synonym u32 = "32 word"
type_synonym u8 = "8 word"

datatype fault = DivisionByZero | NoReturn | OutOfBounds

subsection \<open>Small helpers: \<^verbatim>\<open>gcd_u128\<close>, \<^verbatim>\<open>mul_mod\<close>, \<^verbatim>\<open>pow_mod\<close>\<close>

lemma word_mod_less: "b \<noteq> 0 \<Longrightarrow> unat (a mod b) < unat (b::'a::len word)"
  by (simp add: unat_mod_distrib unat_gt_0)

lemma word_half_less: "b \<noteq> 0 \<Longrightarrow> unat (drop_bit (Suc 0) b) < unat (b::'a::len word)"
proof -
  assume "b \<noteq> 0"
  then have "0 < unat b" by (simp add: unat_gt_0)
  then have "unat b div 2 < unat b" by simp
  then show ?thesis by (simp only: unat_drop_bit_eq) (simp add: drop_bit_eq_div)
qed

text \<open>
  \<^verbatim>\<open>while (b != 0) { t = b; b = a % b; a = t; } return a;\<close>
\<close>

function gcd_u128 :: "u128 \<Rightarrow> u128 \<Rightarrow> u128" where
  "gcd_u128 a b = (if b \<noteq> 0 then gcd_u128 b (a mod b) else a)"
  by pat_completeness auto
termination
  by (relation "measure (\<lambda>(a, b). unat b)") (simp_all add: word_mod_less)

text \<open>
  Double-and-add multiplication. The loop body is
  \<^verbatim>\<open>if (b & 1) { res += a; if (res >= mod) res -= mod; }  a <<= 1; if (a >= mod) a -= mod;  b >>= 1;\<close>
  and the function starts with \<^verbatim>\<open>a %= mod\<close>, which traps for \<^verbatim>\<open>mod == 0\<close>, and ends
  with \<^verbatim>\<open>return res % mod\<close>.
\<close>

function mul_mod_loop :: "u128 \<Rightarrow> u128 \<Rightarrow> u128 \<Rightarrow> u128 \<Rightarrow> u128" where
  "mul_mod_loop res a b m =
     (if b \<noteq> 0 then
        (let res1 = (if b AND 1 \<noteq> 0
                     then (let r = res + a in if r \<ge> m then r - m else r)
                     else res);
             a1 = push_bit 1 a;
             a2 = (if a1 \<ge> m then a1 - m else a1)
         in mul_mod_loop res1 a2 (drop_bit 1 b) m)
      else res)"
  by pat_completeness auto
termination
  by (relation "measure (\<lambda>(res, a, b, m). unat b)") (simp_all add: word_half_less)

definition mul_mod :: "u128 \<Rightarrow> u128 \<Rightarrow> u128 \<Rightarrow> fault + u128" where
  "mul_mod a b m =
     (if m = 0 then Inl DivisionByZero
      else Inr (mul_mod_loop 0 (a mod m) b m mod m))"

declare mul_mod_loop.simps [simp del] gcd_u128.simps [simp del]

subsection \<open>Exactness of the helpers\<close>

lemma unat_gcd_u128: "unat (gcd_u128 a b) = gcd (unat a) (unat b)"
proof (induction a b rule: gcd_u128.induct)
  case (1 a b)
  show ?case
  proof (cases "b = 0")
    case True
    then show ?thesis by (simp add: gcd_u128.simps)
  next
    case False
    with 1 have "unat (gcd_u128 a b) = gcd (unat b) (unat a mod unat b)"
      by (simp add: gcd_u128.simps [of a b] unat_mod_distrib)
    then show ?thesis
      by (simp add: gcd.commute gcd_red_nat [symmetric])
  qed
qed

lemma add_reduce_unat:
  fixes x y m :: u128
  assumes "unat x < unat m" "unat y < unat m" "unat m \<le> 2 ^ 127"
  shows "unat (let r = x + y in if r \<ge> m then r - m else r) = (unat x + unat y) mod unat m"
proof -
  have lt: "unat x + unat y < 2 ^ 128" using assms by simp
  then have s: "unat (x + y) = unat x + unat y"
    by (simp add: unat_add_lem [THEN iffD1])
  show ?thesis
  proof (cases "m \<le> x + y")
    case True
    then have le: "unat m \<le> unat x + unat y" using s by (simp add: word_le_nat_alt)
    have "unat (x + y - m) = unat x + unat y - unat m"
      using True s by (simp add: unat_sub)
    moreover have "(unat x + unat y) mod unat m = unat x + unat y - unat m"
      using le assms by (simp add: mod_if)
    ultimately show ?thesis using True by (simp add: Let_def)
  next
    case False
    then have "unat x + unat y < unat m" using s by (simp add: word_le_nat_alt)
    then show ?thesis using False s by (simp add: Let_def)
  qed
qed

lemma double_reduce_unat:
  fixes a m :: u128
  assumes "unat a < unat m" "unat m \<le> 2 ^ 127"
  shows "unat (let a1 = push_bit 1 a in if a1 \<ge> m then a1 - m else a1) = (2 * unat a) mod unat m"
proof -
  have p: "push_bit 1 a = a + a" by (simp add: push_bit_eq_mult)
  have n: "2 * unat a = unat a + unat a" by simp
  show ?thesis unfolding p n by (rule add_reduce_unat [OF assms(1) assms(1) assms(2)])
qed

lemma mod_add_mult_left: "(x + (c mod M) * k) mod (M::nat) = (x + c * k) mod M"
  by (metis mod_add_right_eq mod_mult_left_eq)

lemma mul_step_nat:
  fixes M :: nat
  shows "((if odd b then (r + a) mod M else r) + ((2 * a) mod M) * (b div 2)) mod M = (r + a * b) mod M"
proof -
  have b: "b = 2 * (b div 2) + (if odd b then 1 else 0)" by (cases "odd b") auto
  have "((if odd b then (r + a) mod M else r) + ((2 * a) mod M) * (b div 2)) mod M
      = ((if odd b then (r + a) mod M else r) + (2 * a) * (b div 2)) mod M"
    by (rule mod_add_mult_left)
  also have "\<dots> = ((if odd b then r + a else r) + (2 * a) * (b div 2)) mod M"
    by (cases "odd b") (simp_all add: mod_add_left_eq)
  also have "(if odd b then r + a else r) + (2 * a) * (b div 2) = r + a * (2 * (b div 2) + (if odd b then 1 else 0))"
    by (simp add: algebra_simps)
  also have "\<dots> = r + a * b" using b by simp
  finally show ?thesis .
qed

lemma and_one_odd: "(b AND 1 \<noteq> 0) = odd (unat (b::u128))"
proof -
  have "(b AND 1 \<noteq> 0) = (b mod 2 \<noteq> 0)" by (simp add: and_one_eq)
  also have "\<dots> = (unat (b mod 2) \<noteq> 0)" by (simp add: unat_eq_0)
  also have "\<dots> = odd (unat b)" by (simp add: unat_mod_distrib odd_iff_mod_2_eq_one)
  finally show ?thesis .
qed

lemma mul_mod_loop_zero: "mul_mod_loop res a 0 m = res"
  by (simp add: mul_mod_loop.simps [of res a 0 m])

lemma mul_mod_loop_step:
  "b \<noteq> 0 \<Longrightarrow> mul_mod_loop res a b m =
     mul_mod_loop (if b AND 1 \<noteq> 0 then (let r = res + a in if r \<ge> m then r - m else r) else res)
       (let a1 = push_bit 1 a in if a1 \<ge> m then a1 - m else a1) (drop_bit 1 b) m"
  by (subst mul_mod_loop.simps) (simp add: Let_def)

lemma unat_mul_mod_loop:
  "0 < unat m \<Longrightarrow> unat m \<le> 2 ^ 127 \<Longrightarrow> unat a < unat m \<Longrightarrow> unat res < unat m \<Longrightarrow>
     unat (mul_mod_loop res a b m) = (unat res + unat a * unat b) mod unat m"
proof (induction "unat b" arbitrary: res a b rule: less_induct)
  case less
  show ?case
  proof (cases "b = 0")
    case True
    then show ?thesis using less.prems by (simp add: mul_mod_loop_zero)
  next
    case False
    define res1 where "res1 = (if b AND 1 \<noteq> 0
                     then (let r = res + a in if r \<ge> m then r - m else r)
                     else res)"
    define a2 where "a2 = (let a1 = push_bit 1 a in if a1 \<ge> m then a1 - m else a1)"
    have r1: "unat res1 = (if odd (unat b) then (unat res + unat a) mod unat m else unat res)"
      unfolding res1_def and_one_odd
      using add_reduce_unat [of res m a] less.prems by simp
    have a2: "unat a2 = (2 * unat a) mod unat m"
      unfolding a2_def using double_reduce_unat [of a m] less.prems by simp
    have b2: "unat (drop_bit 1 b) = unat b div 2"
      by (simp only: unat_drop_bit_eq) (simp add: drop_bit_eq_div)
    have "unat res1 < unat m" using r1 less.prems by simp
    moreover have "unat a2 < unat m" using a2 less.prems by simp
    moreover have "unat (drop_bit 1 b) < unat b" using False word_half_less [of b] by simp
    ultimately have "unat (mul_mod_loop res1 a2 (drop_bit 1 b) m)
        = (unat res1 + unat a2 * unat (drop_bit 1 b)) mod unat m"
      using less.hyps [of "drop_bit 1 b" a2 res1] less.prems by blast
    also have "\<dots> = (unat res + unat a * unat b) mod unat m"
      unfolding r1 a2 b2 by (rule mul_step_nat)
    finally show ?thesis
      unfolding mul_mod_loop_step [OF False] res1_def a2_def .
  qed
qed

text \<open>
  Binary exponentiation: \<^verbatim>\<open>result = 1; base %= mod;\<close> then, while \<^verbatim>\<open>exp\<close> is not zero,
  \<^verbatim>\<open>if (exp & 1) result = mul_mod(result, base, mod); base = mul_mod(base, base, mod); exp >>= 1;\<close>
\<close>

function pow_mod_loop :: "u128 \<Rightarrow> u128 \<Rightarrow> u128 \<Rightarrow> u128 \<Rightarrow> fault + u128" where
  "pow_mod_loop result base exp m =
     (if exp \<noteq> 0 then
        (case (if exp AND 1 \<noteq> 0 then mul_mod result base m else Inr result) of
           Inl e \<Rightarrow> Inl e
         | Inr result1 \<Rightarrow>
             (case mul_mod base base m of
                Inl e \<Rightarrow> Inl e
              | Inr base1 \<Rightarrow> pow_mod_loop result1 base1 (drop_bit 1 exp) m))
      else Inr result)"
  by pat_completeness auto
termination
  by (relation "measure (\<lambda>(result, base, exp, m). unat exp)") (simp_all add: word_half_less)

declare pow_mod_loop.simps [simp del]

definition pow_mod :: "u128 \<Rightarrow> u128 \<Rightarrow> u128 \<Rightarrow> fault + u128" where
  "pow_mod base exp m =
     (if m = 0 then Inl DivisionByZero else pow_mod_loop 1 (base mod m) exp m)"

lemma mul_mod_exact:
  assumes "0 < unat m" "unat m \<le> 2 ^ 127"
  shows "\<exists>r. mul_mod a b m = Inr r \<and> unat r = (unat a * unat b) mod unat m"
proof -
  have m0: "m \<noteq> 0" using assms(1) by (simp add: unat_gt_0)
  have lt: "unat (a mod m) < unat m" using m0 by (rule word_mod_less)
  have "unat (mul_mod_loop 0 (a mod m) b m) = (unat (0::u128) + unat (a mod m) * unat b) mod unat m"
    using assms lt by (intro unat_mul_mod_loop) simp_all
  also have "\<dots> = (unat a * unat b) mod unat m"
    by (simp add: unat_mod_distrib mod_mult_left_eq)
  finally have "unat (mul_mod_loop 0 (a mod m) b m mod m) = (unat a * unat b) mod unat m"
    by (simp add: unat_mod_distrib)
  then show ?thesis using m0 by (simp add: mul_mod_def)
qed

lemma pow_mod_loop_exact:
  "0 < unat m \<Longrightarrow> unat m \<le> 2 ^ 127 \<Longrightarrow>
     \<exists>r. pow_mod_loop result base exp m = Inr r \<and>
         (if exp = 0 then r = result
          else unat r = (unat result * unat base ^ unat exp) mod unat m)"
proof (induction "unat exp" arbitrary: result base exp rule: less_induct)
  case less
  show ?case
  proof (cases "exp = 0")
    case True
    then show ?thesis by (simp add: pow_mod_loop.simps [of result base 0 m])
  next
    case False
    let ?M = "unat m"
    have "\<exists>r1. (if exp AND 1 \<noteq> 0 then mul_mod result base m else Inr result) = Inr r1 \<and>
             unat r1 mod ?M = (if odd (unat exp) then unat result * unat base else unat result) mod ?M"
    proof (cases "odd (unat exp)")
      case True
      obtain q where "mul_mod result base m = Inr q" "unat q = (unat result * unat base) mod ?M"
        using mul_mod_exact [OF less.prems, of result base] by auto
      then show ?thesis using True by (simp add: and_one_odd)
    next
      case False
      then show ?thesis by (simp add: and_one_odd)
    qed
    then obtain r1 where r1: "(if exp AND 1 \<noteq> 0 then mul_mod result base m else Inr result) = Inr r1"
      and r1v: "unat r1 mod ?M = (if odd (unat exp) then unat result * unat base else unat result) mod ?M"
      by auto
    obtain b1 where b1: "mul_mod base base m = Inr b1" and b1v: "unat b1 = (unat base * unat base) mod ?M"
      using mul_mod_exact [OF less.prems, of base base] by auto
    have step: "pow_mod_loop result base exp m = pow_mod_loop r1 b1 (drop_bit 1 exp) m"
      using False by (subst pow_mod_loop.simps) (simp add: r1 b1)
    have e2: "unat (drop_bit 1 exp) = unat exp div 2"
      by (simp only: unat_drop_bit_eq) (simp add: drop_bit_eq_div)
    have lt: "unat (drop_bit 1 exp) < unat exp" using False word_half_less [of exp] by simp
    obtain r where r: "pow_mod_loop r1 b1 (drop_bit 1 exp) m = Inr r"
      and rv: "if drop_bit 1 exp = 0 then r = r1
               else unat r = (unat r1 * unat b1 ^ unat (drop_bit 1 exp)) mod ?M"
      using less.hyps [OF lt less.prems, of r1 b1] by auto
    have ex: "unat exp = 2 * (unat exp div 2) + (if odd (unat exp) then 1 else 0)"
      by (cases "odd (unat exp)") auto
    have "unat r = (unat result * unat base ^ unat exp) mod ?M"
    proof (cases "drop_bit 1 exp = 0")
      case True
      then have "unat exp div 2 = 0" using e2 by simp
      then have one: "unat exp = 1" using False ex by (cases "odd (unat exp)") (auto simp: unat_eq_0)
      have "r = r1" using rv True by simp
      moreover have "unat r1 = unat result * unat base mod ?M"
        using r1 one mul_mod_exact [OF less.prems, of result base] by (auto simp: and_one_odd)
      ultimately show ?thesis using one by simp
    next
      case F2: False
      have "unat r = (unat r1 * unat b1 ^ (unat exp div 2)) mod ?M" using rv F2 e2 by simp
      also have "\<dots> = ((unat r1 mod ?M) * (unat b1 ^ (unat exp div 2) mod ?M)) mod ?M"
        by (rule mod_mult_eq [symmetric])
      also have "unat b1 ^ (unat exp div 2) mod ?M = (unat base * unat base) ^ (unat exp div 2) mod ?M"
        unfolding b1v by (rule power_mod)
      also have "((unat r1 mod ?M) * ((unat base * unat base) ^ (unat exp div 2) mod ?M)) mod ?M
               = ((if odd (unat exp) then unat result * unat base else unat result)
                         * (unat base * unat base) ^ (unat exp div 2)) mod ?M"
        unfolding r1v by (rule mod_mult_eq)
      also have "(if odd (unat exp) then unat result * unat base else unat result)
                         * (unat base * unat base) ^ (unat exp div 2)
                = unat result * unat base ^ (2 * (unat exp div 2) + (if odd (unat exp) then 1 else 0))"
        by (simp add: power_mult power2_eq_square power_add)
      also have "\<dots> = unat result * unat base ^ unat exp" using ex by simp
      finally show ?thesis .
    qed
    then show ?thesis using False step r by simp
  qed
qed

lemma pow_mod_exact:
  assumes "0 < unat m" "unat m \<le> 2 ^ 127"
  shows "\<exists>r. pow_mod base exp m = Inr r \<and>
           (if exp = 0 then r = 1 else unat r = unat base ^ unat exp mod unat m)"
proof -
  have m0: "m \<noteq> 0" using assms(1) by (simp add: unat_gt_0)
  obtain r where r: "pow_mod_loop 1 (base mod m) exp m = Inr r"
    and rv: "if exp = 0 then r = 1
             else unat r = (unat (1::u128) * unat (base mod m) ^ unat exp) mod unat m"
    using pow_mod_loop_exact [OF assms, of 1 "base mod m" exp] by auto
  have "exp \<noteq> 0 \<Longrightarrow> unat r = unat base ^ unat exp mod unat m"
    using rv by (simp add: unat_mod_distrib power_mod)
  then show ?thesis using m0 r rv by (auto simp: pow_mod_def)
qed

lemma pow_mod_zero_exp: "m \<noteq> 0 \<Longrightarrow> pow_mod base 0 m = Inr 1"
  by (simp add: pow_mod_def pow_mod_loop.simps [of _ _ 0])

text \<open>
  C9 (exactness of the wide modular arithmetic). For \<open>0 < m \<le> 2^127\<close> the
  double-and-add loop never overflows: \<open>mul_mod_exact\<close> shows that \<^verbatim>\<open>mul_mod(a, b, m)\<close>
  is \<open>a * b mod m\<close>, and \<open>pow_mod_exact\<close> that \<^verbatim>\<open>pow_mod(b, e, m)\<close> is \<open>b ^ e mod m\<close>
  for every exponent \<open>e > 0\<close>. For \<open>e = 0\<close> the function returns its initial
  \<^verbatim>\<open>result = 1\<close> unreduced, which for the modulus 1 is not \<open>b ^ 0 mod 1 = 0\<close>.
\<close>

theorem pow_mod_unit_modulus:
  "pow_mod 2 0 1 = Inr 1 \<and> (unat (2::u128) ^ unat (0::u128)) mod unat (1::u128) = 0"
  by (simp add: pow_mod_zero_exp)

subsection \<open>The fallback: Pollard's rho on 128-bit values\<close>

text \<open>
  \<^verbatim>\<open>rho_func(x, c, n) = (mul_mod(x, x, n) + c) % n\<close>. One pass of the inner loop of
  \<^verbatim>\<open>pollard_rho_u128\<close> is \<open>rho_step\<close>:
  \<^verbatim>\<open>x = rho_func(x, c, n); y = rho_func(rho_func(y, c, n), c, n);
  diff = (x > y) ? (x - y) : (y - x); d = gcd_u128(diff, n);\<close>
  The inner loop runs \<^verbatim>\<open>for (i = 0; i < 200000; i++)\<close> and returns \<open>d\<close> as soon as
  \<open>1 < d < n\<close>; the outer loop runs \<^verbatim>\<open>for (attempt = 0; attempt < 5; attempt++, c += 2)\<close>
  from \<open>c = 1\<close>, each attempt restarting at \<open>x = y = 2\<close>; the function returns 2 for an
  even \<open>n\<close> and 0 when every attempt is exhausted.
\<close>

lemma gcd_u128_divides: "gcd_u128 a n = g \<Longrightarrow> n mod g = 0"
proof -
  assume "gcd_u128 a n = g"
  then have "unat g = gcd (unat a) (unat n)" using unat_gcd_u128 [of a n] by simp
  then have "unat g dvd unat n" by simp
  then have "unat (n mod g) = 0" by (simp add: unat_mod_distrib)
  then show ?thesis by (simp add: unat_eq_0)
qed





















section \<open>The sieve\<close>

subsection \<open>Capacities\<close>

definition MAX_FB :: nat where
  "MAX_FB = 6000"

definition LP_BOUND :: nat where
  "LP_BOUND = 100000000"

definition MAX_REL :: nat where
  "MAX_REL = 12000"

subsection \<open>Powers and integer roots\<close>

text \<open>
  \<^verbatim>\<open>pow_u128\<close> multiplies \<^verbatim>\<open>exp\<close> times, wrapping around at 128 bits. \<^verbatim>\<open>int_root\<close> is a
  binary search between \<^verbatim>\<open>low = 1\<close> and \<^verbatim>\<open>high = n\<close>:
  \<^verbatim>\<open>mid = low + ((high - low) >> 1); p = pow_u128(mid, d);
  if (p == 0 || p > n) high = mid - 1; else { ans = mid; low = mid + 1; }\<close>
  When \<^verbatim>\<open>mid + 1\<close> wraps around (\<^verbatim>\<open>high\<close> is the largest 128-bit value) the search need
  not end, so the loop is a partial function.
\<close>

definition pow_u128 :: "u128 \<Rightarrow> int \<Rightarrow> u128" where
  "pow_u128 base exp = fold (\<lambda>i res. res * base) [0..<nat exp] 1"

partial_function (option) int_root_loop :: "u128 \<Rightarrow> int \<Rightarrow> u128 \<Rightarrow> u128 \<Rightarrow> u128 \<Rightarrow> u128 option" where
  "int_root_loop n d low high ans =
     (if low \<le> high then
        (let mid = low + drop_bit 1 (high - low);
             p = pow_u128 mid d
         in if p = 0 \<or> p > n then int_root_loop n d low (mid - 1) ans
            else int_root_loop n d (mid + 1) high mid)
      else Some ans)"

declare int_root_loop.simps [code]

definition int_root :: "u128 \<Rightarrow> int \<Rightarrow> u128 option" where
  "int_root n d = int_root_loop n d 1 n 1"

subsection \<open>Prime generation\<close>

text \<open>
  The sieve of Eratosthenes over a zeroed array \<^verbatim>\<open>is_prime[0..limit]\<close>: the entries
  \<open>2..limit\<close> are set, then for \<^verbatim>\<open>p = 2; p * p <= limit; p++\<close> the multiples
  \<^verbatim>\<open>j = p * p; j <= limit; j += p\<close> of an unmarked \<open>p\<close> are cleared, and the surviving
  indices are stored in \<^verbatim>\<open>primes[count++]\<close> while \<^verbatim>\<open>count < MAX_FB\<close>. For a \<^verbatim>\<open>limit\<close>
  below 2 no loop runs and the count is 0, as it is when the allocation fails; an
  allocation that fails for a larger \<^verbatim>\<open>limit\<close> is outside the model. The test \<open>0 < p\<close>
  of \<open>mark_multiples\<close> only makes the recursion well-founded: every call has \<open>p \<ge> 2\<close>.
\<close>

lemma le_of_square_le: "p * p \<le> (l::nat) \<Longrightarrow> p \<le> l"
proof -
  assume a: "p * p \<le> l"
  have "p \<le> p * p" by (cases p) simp_all
  from this a show ?thesis by (rule order_trans)
qed

function mark_multiples :: "nat \<Rightarrow> nat \<Rightarrow> nat \<Rightarrow> (nat \<Rightarrow> bool) \<Rightarrow> (nat \<Rightarrow> bool)" where
  "mark_multiples limit p j is_prime =
     (if j \<le> limit \<and> 0 < p then mark_multiples limit p (j + p) (is_prime(j := False))
      else is_prime)"
  by pat_completeness auto
termination
  by (relation "measure (\<lambda>(limit, p, j, is_prime). limit + 1 - j)") auto

function sieve_loop :: "nat \<Rightarrow> nat \<Rightarrow> (nat \<Rightarrow> bool) \<Rightarrow> (nat \<Rightarrow> bool)" where
  "sieve_loop limit p is_prime =
     (if p * p \<le> limit then
        sieve_loop limit (p + 1)
          (if is_prime p then mark_multiples limit p (p * p) is_prime else is_prime)
      else is_prime)"
  by pat_completeness auto
termination
proof (relation "measure (\<lambda>(limit, p, is_prime). limit + 1 - p)")
  show "wf (measure (\<lambda>(limit, p, is_prime). limit + 1 - p))" by simp
next
  fix limit p :: nat and is_prime :: "nat \<Rightarrow> bool"
  assume a: "p * p \<le> limit"
  have "p \<le> limit" using a by (rule le_of_square_le)
  then show "((limit, p + 1, if is_prime p then mark_multiples limit p (p * p) is_prime else is_prime),
        (limit, p, is_prime)) \<in> measure (\<lambda>(limit, p, is_prime). limit + 1 - p)"
    by simp
qed

function collect_primes ::
  "nat \<Rightarrow> (nat \<Rightarrow> bool) \<Rightarrow> nat \<Rightarrow> nat \<Rightarrow> (nat \<Rightarrow> u32) \<Rightarrow> nat \<times> (nat \<Rightarrow> u32)" where
  "collect_primes limit is_prime i count primes =
     (if i \<le> limit \<and> count < MAX_FB then
        (if is_prime i then collect_primes limit is_prime (i + 1) (count + 1) (primes(count := of_nat i))
         else collect_primes limit is_prime (i + 1) count primes)
      else (count, primes))"
  by pat_completeness auto
termination
  by (relation "measure (\<lambda>(limit, is_prime, i, count, primes). limit + 1 - i)") auto

definition generate_primes :: "int \<Rightarrow> (nat \<Rightarrow> u32) \<Rightarrow> nat \<times> (nat \<Rightarrow> u32)" where
  "generate_primes limit primes =
     collect_primes (nat limit)
       (sieve_loop (nat limit) 2 (\<lambda>i. 2 \<le> i \<and> i \<le> nat limit)) 2 0 primes"

subsection \<open>Relations and the bit matrix\<close>

text \<open>
  The file-level arrays and counters of the program, which \<^verbatim>\<open>snfs_factor\<close> resets by
  setting the two counters to 0. An array is a function from its index; the stores
  that the program does not check are checked in the model. A matrix row is an array
  of 64-bit words; bit \<open>i\<close> of a row is bit \<open>i mod 64\<close> of its word \<open>i div 64\<close>.
\<close>

record Relation =
  a_offset :: int
  r_exp :: "nat \<Rightarrow> u8"
  a_exp :: "nat \<Rightarrow> u8"

record session =
  relations :: "nat \<Rightarrow> Relation"
  relation_count :: nat
  row_bits :: "nat \<Rightarrow> nat \<Rightarrow> u64"
  combo_bits :: "nat \<Rightarrow> nat \<Rightarrow> u64"
  pivot_col :: "nat \<Rightarrow> nat"
  matrix_rows :: nat

definition empty_session :: session where
  "empty_session =
     \<lparr>relations = (\<lambda>i. \<lparr>a_offset = 0, r_exp = (\<lambda>j. 0), a_exp = (\<lambda>j. 0)\<rparr>),
      relation_count = 0,
      row_bits = (\<lambda>r w. 0), combo_bits = (\<lambda>r w. 0), pivot_col = (\<lambda>r. 0),
      matrix_rows = 0\<rparr>"

text \<open>
  \<^verbatim>\<open>row[i / 64] & ((uint64_t)1 << (i % 64))\<close> and
  \<^verbatim>\<open>row[i / 64] |= (uint64_t)1 << (i % 64)\<close>.
\<close>

definition test_bit_row :: "(nat \<Rightarrow> u64) \<Rightarrow> nat \<Rightarrow> bool" where
  "test_bit_row row i = (row (i div 64) AND push_bit (i mod 64) 1 \<noteq> 0)"

definition or_bit_row :: "(nat \<Rightarrow> u64) \<Rightarrow> nat \<Rightarrow> (nat \<Rightarrow> u64)" where
  "or_bit_row row i = row(i div 64 := row (i div 64) OR push_bit (i mod 64) 1)"

text \<open>
  \<^verbatim>\<open>__builtin_ctzll\<close> counts the trailing zero bits of a non-zero word.
  \<^verbatim>\<open>first_set_bit\<close> returns \<^verbatim>\<open>w * 64 + __builtin_ctzll(row[w])\<close> for the first non-zero
  word, and -1 when there is none.
\<close>

function ctz_from :: "u64 \<Rightarrow> nat \<Rightarrow> nat" where
  "ctz_from x i = (if i < 64 \<and> \<not> bit x i then ctz_from x (i + 1) else i)"
  by pat_completeness auto
termination
  by (relation "measure (\<lambda>(x, i). 64 - i)") auto

definition ctzll :: "u64 \<Rightarrow> nat" where
  "ctzll x = ctz_from x 0"

function first_set_bit_from :: "(nat \<Rightarrow> u64) \<Rightarrow> nat \<Rightarrow> nat \<Rightarrow> int" where
  "first_set_bit_from row words w =
     (if w < words then
        (if row w \<noteq> 0 then int (w * 64 + ctzll (row w))
         else first_set_bit_from row words (w + 1))
      else - 1)"
  by pat_completeness auto
termination
  by (relation "measure (\<lambda>(row, words, w). words - w)") auto

definition first_set_bit :: "(nat \<Rightarrow> u64) \<Rightarrow> nat \<Rightarrow> int" where
  "first_set_bit row words = first_set_bit_from row words 0"

definition xor_rows :: "(nat \<Rightarrow> u64) \<Rightarrow> (nat \<Rightarrow> u64) \<Rightarrow> nat \<Rightarrow> (nat \<Rightarrow> u64)" where
  "xor_rows dst src words = (\<lambda>i. if i < words then dst i XOR src i else dst i)"

function row_is_zero_from :: "(nat \<Rightarrow> u64) \<Rightarrow> nat \<Rightarrow> nat \<Rightarrow> bool" where
  "row_is_zero_from row words i =
     (if i < words then (if row i \<noteq> 0 then False else row_is_zero_from row words (i + 1))
      else True)"
  by pat_completeness auto
termination
  by (relation "measure (\<lambda>(row, words, i). words - i)") auto

definition row_is_zero :: "(nat \<Rightarrow> u64) \<Rightarrow> nat \<Rightarrow> bool" where
  "row_is_zero row words = row_is_zero_from row words 0"

definition memcpy_words :: "(nat \<Rightarrow> u64) \<Rightarrow> (nat \<Rightarrow> u64) \<Rightarrow> nat \<Rightarrow> (nat \<Rightarrow> u64)" where
  "memcpy_words dst src n = (\<lambda>i. if i < n then src i else dst i)"

text \<open>
  \<^verbatim>\<open>insert_row\<close> first reduces the row against every stored pivot, in insertion order:
  \<^verbatim>\<open>pc = pivot_col[r]; if (row[pc / 64] & ((uint64_t)1 << (pc % 64)))
  { xor_rows(row, row_bits[r], col_words); xor_rows(combo, combo_bits[r], combo_words); }\<close>
  A row reduced to zero is a dependency: the combination is copied to \<^verbatim>\<open>out_dep\<close> and
  the result is 1. Otherwise the row, its combination and its first set bit are stored
  at index \<^verbatim>\<open>matrix_rows\<close>, which the program does not compare with the capacity
  \<^verbatim>\<open>MAX_REL\<close> of the three arrays.
\<close>

function reduce_rows ::
  "session \<Rightarrow> nat \<Rightarrow> nat \<Rightarrow> nat \<Rightarrow> (nat \<Rightarrow> u64) \<Rightarrow> (nat \<Rightarrow> u64) \<Rightarrow> (nat \<Rightarrow> u64) \<times> (nat \<Rightarrow> u64)" where
  "reduce_rows s col_words combo_words r row combo =
     (if r < matrix_rows s then
        (if test_bit_row row (pivot_col s r)
         then reduce_rows s col_words combo_words (r + 1)
                (xor_rows row (row_bits s r) col_words)
                (xor_rows combo (combo_bits s r) combo_words)
         else reduce_rows s col_words combo_words (r + 1) row combo)
      else (row, combo))"
  by pat_completeness auto
termination
  by (relation "measure (\<lambda>(s, col_words, combo_words, r, row, combo). matrix_rows s - r)") auto

definition insert_row ::
  "session \<Rightarrow> (nat \<Rightarrow> u64) \<Rightarrow> (nat \<Rightarrow> u64) \<Rightarrow> nat \<Rightarrow> nat \<Rightarrow> (nat \<Rightarrow> u64)
     \<Rightarrow> fault + (int \<times> (nat \<Rightarrow> u64) \<times> session)" where
  "insert_row s row0 combo0 col_words combo_words out_dep =
     (case reduce_rows s col_words combo_words 0 row0 combo0 of (row, combo) \<Rightarrow>
        if row_is_zero row col_words then Inr (1, memcpy_words out_dep combo combo_words, s)
        else
          (let pc = first_set_bit row col_words
           in if pc < 0 then Inr (0, out_dep, s)
              else if MAX_REL \<le> matrix_rows s then Inl OutOfBounds
              else Inr (0, out_dep,
                     s\<lparr>row_bits := (row_bits s)
                          (matrix_rows s := memcpy_words (row_bits s (matrix_rows s)) row col_words),
                       combo_bits := (combo_bits s)
                          (matrix_rows s := memcpy_words (combo_bits s (matrix_rows s)) combo combo_words),
                       pivot_col := (pivot_col s)(matrix_rows s := nat pc),
                       matrix_rows := matrix_rows s + 1\<rparr>)))"

subsection \<open>Trial division over the factor base\<close>

text \<open>
  \<^verbatim>\<open>is_prime_u64\<close> is trial division by 2 and by the odd numbers \<open>i\<close> with \<open>i * i \<le> x\<close>.
  The program calls it on values of at most \<^verbatim>\<open>LP_BOUND\<close>, for which \<open>i * i\<close> stays far
  below 64 bits; the model computes on \<open>nat\<close>.
\<close>

function is_prime_from :: "nat \<Rightarrow> nat \<Rightarrow> bool" where
  "is_prime_from x i =
     (if i * i \<le> x then (if x mod i = 0 then False else is_prime_from x (i + 2)) else True)"
  by pat_completeness auto
termination
proof (relation "measure (\<lambda>(x, i). x + 1 - i)")
  show "wf (measure (\<lambda>(x, i). x + 1 - i))" by simp
next
  fix x i :: nat
  assume a: "i * i \<le> x"
  have "i \<le> x" using a by (rule le_of_square_le)
  then show "((x, i + 2), (x, i)) \<in> measure (\<lambda>(x, i). x + 1 - i)" by simp
qed

definition is_prime_u64 :: "nat \<Rightarrow> bool" where
  "is_prime_u64 x =
     (if x < 2 then False
      else if x mod 2 = 0 then x = 2
      else is_prime_from x 3)"

text \<open>
  The inner loop of \<^verbatim>\<open>factor_with_fb\<close>:
  \<^verbatim>\<open>while ((value % p) == 0) { value /= p; if (exp_out[i] < 250) exp_out[i]++; }\<close>
  It never exits when \<^verbatim>\<open>value\<close> is 0 or \<open>p\<close> is 1, and it traps when \<open>p\<close> is 0. The outer
  loop runs over \<^verbatim>\<open>i < *fb_size\<close>. A cofactor other than 1 is accepted as a large prime
  when \<^verbatim>\<open>value <= LP_BOUND && *fb_size < MAX_FB && is_prime_u64((uint64_t)value)\<close>: it is
  appended to \<^verbatim>\<open>primes\<close> with exponent 1 and \<^verbatim>\<open>*fb_size\<close> grows by one.
\<close>

partial_function (option) divide_out :: "u128 \<Rightarrow> u128 \<Rightarrow> u8 \<Rightarrow> (u128 \<times> u8) option" where
  "divide_out v p e =
     (if v mod p = 0 then divide_out (v div p) p (if e < 250 then e + 1 else e)
      else Some (v, e))"

declare divide_out.simps [code]

function fb_divide ::
  "u128 \<Rightarrow> (nat \<Rightarrow> u32) \<Rightarrow> nat \<Rightarrow> (nat \<Rightarrow> u8) \<Rightarrow> nat \<Rightarrow> fault + (u128 \<times> (nat \<Rightarrow> u8))" where
  "fb_divide v primes fb_size exp_out i =
     (if i < fb_size then
        (let p = (ucast (primes i) :: u128)
         in if p = 0 then Inl DivisionByZero
            else (case divide_out v p (exp_out i) of
                    None \<Rightarrow> Inl NoReturn
                  | Some (v', e') \<Rightarrow> fb_divide v' primes fb_size (exp_out(i := e')) (i + 1)))
      else Inr (v, exp_out))"
  by pat_completeness auto
termination
  by (relation "measure (\<lambda>(v, primes, fb_size, exp_out, i). fb_size - i)") auto

definition factor_with_fb ::
  "u128 \<Rightarrow> (nat \<Rightarrow> u32) \<Rightarrow> nat \<Rightarrow> (nat \<Rightarrow> u8)
     \<Rightarrow> fault + (bool \<times> (nat \<Rightarrow> u32) \<times> nat \<times> (nat \<Rightarrow> u8))" where
  "factor_with_fb v0 primes fb_size exp_out0 =
     (case fb_divide v0 primes fb_size exp_out0 0 of
        Inl e \<Rightarrow> Inl e
      | Inr (v, exp_out) \<Rightarrow>
          if v = 1 then Inr (True, primes, fb_size, exp_out)
          else if v \<le> of_nat LP_BOUND \<and> fb_size < MAX_FB \<and> is_prime_u64 (unat v)
          then Inr (True, primes(fb_size := ucast v), fb_size + 1, exp_out(fb_size := 1))
          else Inr (False, primes, fb_size, exp_out))"

subsection \<open>From a dependency to a factor\<close>

text \<open>
  \<^verbatim>\<open>attempt_dependency\<close> sums the exponents of the relations \<open>i < relation_count\<close> whose
  bit is set in the mask, multiplies \<open>x\<close> and \<open>y\<close> by
  \<^verbatim>\<open>pow_mod(primes[j], total[j] / 2, n)\<close> for every column with a non-zero total, and
  tries \<open>gcd(|x - y|, n)\<close> and then \<open>gcd(x + y, n)\<close> (the sum reduced once by \<open>n\<close>).
  Its local arrays hold \<^verbatim>\<open>MAX_FB\<close> totals, and it reads the mask and \<^verbatim>\<open>relations\<close> up to
  \<^verbatim>\<open>relation_count\<close>.
\<close>

definition add_exps :: "(nat \<Rightarrow> u32) \<Rightarrow> (nat \<Rightarrow> u8) \<Rightarrow> nat \<Rightarrow> (nat \<Rightarrow> u32)" where
  "add_exps tot e fb_size = (\<lambda>j. if j < fb_size then tot j + ucast (e j) else tot j)"

definition sum_exponents ::
  "session \<Rightarrow> (nat \<Rightarrow> u64) \<Rightarrow> nat \<Rightarrow> (nat \<Rightarrow> u32) \<times> (nat \<Rightarrow> u32)" where
  "sum_exponents s dep_mask fb_size =
     fold (\<lambda>i (total_r, total_a).
             if \<not> test_bit_row dep_mask i then (total_r, total_a)
             else (add_exps total_r (r_exp (relations s i)) fb_size,
                   add_exps total_a (a_exp (relations s i)) fb_size))
          [0..<relation_count s] (\<lambda>j. 0, \<lambda>j. 0)"

definition mul_pow :: "u128 \<Rightarrow> u32 \<Rightarrow> u32 \<Rightarrow> u128 \<Rightarrow> fault + u128" where
  "mul_pow x p tot n =
     (if tot \<noteq> 0 then
        (case pow_mod (ucast p) (ucast (tot div 2)) n of
           Inl e \<Rightarrow> Inl e
         | Inr q \<Rightarrow> mul_mod x q n)
      else Inr x)"

function square_roots ::
  "(nat \<Rightarrow> u32) \<Rightarrow> (nat \<Rightarrow> u32) \<Rightarrow> (nat \<Rightarrow> u32) \<Rightarrow> nat \<Rightarrow> u128 \<Rightarrow> nat \<Rightarrow> u128 \<Rightarrow> u128
     \<Rightarrow> fault + (u128 \<times> u128)" where
  "square_roots total_r total_a primes fb_size n j x y =
     (if j < fb_size then
        (case mul_pow x (primes j) (total_r j) n of
           Inl e \<Rightarrow> Inl e
         | Inr x1 \<Rightarrow>
             (case mul_pow y (primes j) (total_a j) n of
                Inl e \<Rightarrow> Inl e
              | Inr y1 \<Rightarrow> square_roots total_r total_a primes fb_size n (j + 1) x1 y1))
      else Inr (x, y))"
  by pat_completeness auto
termination
  by (relation "measure (\<lambda>(total_r, total_a, primes, fb_size, n, j, x, y). fb_size - j)") auto

definition extract_factor :: "u128 \<Rightarrow> u128 \<Rightarrow> u128 \<Rightarrow> u128" where
  "extract_factor x y n =
     (let diff = (if x > y then x - y else y - x);
          g = gcd_u128 diff n
      in if g > 1 \<and> g < n then g
         else
           (let sum = x + y;
                sum1 = (if sum \<ge> n then sum - n else sum);
                g2 = gcd_u128 sum1 n
            in if g2 > 1 \<and> g2 < n then g2 else 0))"

definition attempt_dependency ::
  "session \<Rightarrow> (nat \<Rightarrow> u64) \<Rightarrow> nat \<Rightarrow> (nat \<Rightarrow> u32) \<Rightarrow> nat \<Rightarrow> u128 \<Rightarrow> fault + u128" where
  "attempt_dependency s dep_mask dep_words primes fb_size n =
     (if MAX_FB < fb_size \<or> MAX_REL < relation_count s \<or> 64 * dep_words < relation_count s
      then Inl OutOfBounds
      else
        (case sum_exponents s dep_mask fb_size of (total_r, total_a) \<Rightarrow>
           (case square_roots total_r total_a primes fb_size n 0 1 1 of
              Inl e \<Rightarrow> Inl e
            | Inr (x, y) \<Rightarrow> Inr (extract_factor x y n))))"

subsection \<open>Relation collection: \<^verbatim>\<open>snfs_factor\<close>\<close>

text \<open>
  The parity row of a relation is built in an array of \<^verbatim>\<open>col_words\<close> words:
  \<^verbatim>\<open>for (i = 0; i < fb_size; i++) if (rel.a_exp[i] % 2 == 1) row[i / 64] |= (uint64_t)1 << (i % 64);\<close>
  where \<^verbatim>\<open>fb_size\<close> is the current size of the factor base.
\<close>

function build_row ::
  "(nat \<Rightarrow> u8) \<Rightarrow> nat \<Rightarrow> nat \<Rightarrow> nat \<Rightarrow> (nat \<Rightarrow> u64) \<Rightarrow> fault + (nat \<Rightarrow> u64)" where
  "build_row exps fb_size col_words i row =
     (if i < fb_size then
        (if exps i mod 2 = 1 then
           (if i div 64 < col_words then build_row exps fb_size col_words (i + 1) (or_bit_row row i)
            else Inl OutOfBounds)
         else build_row exps fb_size col_words (i + 1) row)
      else Inr row)"
  by pat_completeness auto
termination
  by (relation "measure (\<lambda>(exps, fb_size, col_words, i, row). fb_size - i)") auto

text \<open>
  The state of the collection loop: the file-level arrays, and the locals
  \<^verbatim>\<open>primes\<close>, \<^verbatim>\<open>fb_size\<close> and \<^verbatim>\<open>dep_mask\<close> of \<^verbatim>\<open>snfs_factor\<close> that the loop changes.
\<close>

record collector =
  sess :: session
  cur_primes :: "nat \<Rightarrow> u32"
  cur_fb_size :: nat
  cur_dep_mask :: "nat \<Rightarrow> u64"

text \<open>
  One pass of the loop body for the offset \<open>k\<close>, after the test of the relation caps.
  The result is \<open>Some factor\<close> when the pass returns a factor from \<^verbatim>\<open>snfs_factor\<close>, and
  \<open>None\<close> when the loop goes on: after \<^verbatim>\<open>continue\<close> for a value that is not smooth, or
  after \<^verbatim>\<open>relation_count++\<close>.
\<close>

definition snfs_body ::
  "u128 \<Rightarrow> int \<Rightarrow> u128 \<Rightarrow> nat \<Rightarrow> nat \<Rightarrow> int \<Rightarrow> collector \<Rightarrow> fault + (u128 option \<times> collector)" where
  "snfs_body n degree m col_words combo_words k st =
     (let a = m + of_int k;
          algebraic = pow_u128 a degree + 1
      in case factor_with_fb algebraic (cur_primes st) (cur_fb_size st) (\<lambda>j. 0) of
           Inl e \<Rightarrow> Inl e
         | Inr (smooth, primes1, fb_size1, exps) \<Rightarrow>
             if \<not> smooth then Inr (None, st)
             else
               (case build_row exps fb_size1 col_words 0 (\<lambda>w. 0) of
                  Inl e \<Rightarrow> Inl e
                | Inr row \<Rightarrow>
                    (let s = sess st;
                         rel = \<lparr>a_offset = k, r_exp = (\<lambda>j. 0), a_exp = exps\<rparr>;
                         s1 = s\<lparr>relations := (relations s)(relation_count s := rel)\<rparr>;
                         combo = or_bit_row (\<lambda>w. 0) (relation_count s)
                     in case insert_row s1 row combo col_words combo_words (cur_dep_mask st) of
                          Inl e \<Rightarrow> Inl e
                        | Inr (dependent, dep_mask1, s2) \<Rightarrow>
                            (let st2 = \<lparr>sess = s2\<lparr>relation_count := relation_count s2 + 1\<rparr>,
                                        cur_primes = primes1, cur_fb_size = fb_size1,
                                        cur_dep_mask = dep_mask1\<rparr>
                             in if dependent \<noteq> 0 then
                                  (case attempt_dependency s2 dep_mask1 combo_words primes1 fb_size1 n of
                                     Inl e \<Rightarrow> Inl e
                                   | Inr factor \<Rightarrow>
                                       if factor > 1 \<and> factor < n
                                       then Inr (Some factor,
                                              \<lparr>sess = s2, cur_primes = primes1, cur_fb_size = fb_size1,
                                               cur_dep_mask = dep_mask1\<rparr>)
                                       else Inr (None, st2))
                                else Inr (None, st2)))))"

text \<open>
  \<^verbatim>\<open>for (k = 1; k <= window; k++) { if (relation_count >= MAX_REL || relation_count >= target_rel) break; ... }\<close>
  and \<^verbatim>\<open>return 0\<close> after the loop.
\<close>

function snfs_loop ::
  "u128 \<Rightarrow> int \<Rightarrow> int \<Rightarrow> u128 \<Rightarrow> nat \<Rightarrow> nat \<Rightarrow> nat \<Rightarrow> int \<Rightarrow> collector \<Rightarrow> fault + (u128 \<times> collector)" where
  "snfs_loop n degree window m col_words combo_words target_rel k st =
     (if k \<le> window then
        (if MAX_REL \<le> relation_count (sess st) \<or> target_rel \<le> relation_count (sess st)
         then Inr (0, st)
         else
           (case snfs_body n degree m col_words combo_words k st of
              Inl e \<Rightarrow> Inl e
            | Inr (Some factor, st1) \<Rightarrow> Inr (factor, st1)
            | Inr (None, st1) \<Rightarrow>
                snfs_loop n degree window m col_words combo_words target_rel (k + 1) st1))
      else Inr (0, st))"
  by pat_completeness auto
termination
  by (relation "measure (\<lambda>(n, degree, window, m, col_words, combo_words, target_rel, k, st).
        nat (window + 1 - k))") auto

text \<open>
  \<^verbatim>\<open>snfs_factor\<close>: the factor base, the two counters reset, \<^verbatim>\<open>col_words = (fb_size + 63) / 64\<close>,
  \<^verbatim>\<open>combo_words = (MAX_REL + 63) / 64\<close>, \<^verbatim>\<open>m = int_root(n > 1 ? n - 1 : n, degree)\<close>,
  \<^verbatim>\<open>target_rel = fb_size + 16\<close>, then the loop. \<open>snfs_run\<close> also returns the final state.
\<close>

definition initial_state :: "nat \<Rightarrow> (nat \<Rightarrow> u32) \<Rightarrow> collector" where
  "initial_state fb_size0 primes0 =
     \<lparr>sess = empty_session, cur_primes = primes0, cur_fb_size = fb_size0, cur_dep_mask = (\<lambda>w. 0)\<rparr>"

definition snfs_run :: "u128 \<Rightarrow> int \<Rightarrow> int \<Rightarrow> int \<Rightarrow> fault + (u128 \<times> collector)" where
  "snfs_run n degree fb_bound window =
     (case generate_primes fb_bound (\<lambda>i. 0) of (fb_size0, primes0) \<Rightarrow>
        if fb_size0 = 0 then Inr (0, initial_state fb_size0 primes0)
        else
          (let col_words = (fb_size0 + 63) div 64;
               combo_words = (MAX_REL + 63) div 64
           in case int_root (if n > 1 then n - 1 else n) degree of
                None \<Rightarrow> Inl NoReturn
              | Some m \<Rightarrow>
                  snfs_loop n degree window m col_words combo_words (fb_size0 + 16) 1
                    (initial_state fb_size0 primes0)))"

definition snfs_factor :: "u128 \<Rightarrow> int \<Rightarrow> int \<Rightarrow> int \<Rightarrow> fault + u128" where
  "snfs_factor n degree fb_bound window = map_sum id fst (snfs_run n degree fb_bound window)"

declare ctz_from.simps [simp del] mark_multiples.simps [simp del] sieve_loop.simps [simp del] collect_primes.simps [simp del]
  first_set_bit_from.simps [simp del] row_is_zero_from.simps [simp del] reduce_rows.simps [simp del]
  is_prime_from.simps [simp del] fb_divide.simps [simp del] square_roots.simps [simp del]
  build_row.simps [simp del] snfs_loop.simps [simp del]

subsection \<open>Evaluation of word comparisons and powers\<close>

lemma word_le_one_iff: "(x \<le> (1::'a::len word)) = (x = 0 \<or> x = 1)"
proof -
  have "(x \<le> 1) = (unat x \<le> 1)" by (simp add: word_le_nat_alt)
  also have "\<dots> = (unat x = 0 \<or> unat x = 1)" by auto
  also have "\<dots> = (x = 0 \<or> x = 1)" by (simp add: word_unat_eq_iff)
  finally show ?thesis .
qed

lemma fold_mult_power: "fold (\<lambda>i res. res * base) xs (acc::u128) = acc * base ^ length xs"
  by (induction xs arbitrary: acc) (simp_all add: mult.assoc)

lemma pow_u128_power: "pow_u128 base exp = base ^ nat exp"
  by (simp add: pow_u128_def fold_mult_power)

section \<open>The congruence extractor\<close>

lemma extract_factor_sound:
  assumes "extract_factor x y n = g" "g \<noteq> 0"
  shows "n mod g = 0 \<and> 1 < g \<and> g < n"
proof -
  define g1 where "g1 = gcd_u128 (if x > y then x - y else y - x) n"
  define g2 where "g2 = gcd_u128 (if x + y \<ge> n then x + y - n else x + y) n"
  have res: "g = (if g1 > 1 \<and> g1 < n then g1 else if g2 > 1 \<and> g2 < n then g2 else 0)"
    using assms(1) unfolding extract_factor_def Let_def g1_def g2_def by (rule sym)
  have d1: "n mod g1 = 0" by (rule gcd_u128_divides) (simp add: g1_def)
  have d2: "n mod g2 = 0" by (rule gcd_u128_divides) (simp add: g2_def)
  show ?thesis
  proof (cases "g1 > 1 \<and> g1 < n")
    case True
    then have "g = g1" unfolding res by (rule if_P)
    then show ?thesis using True d1 by simp
  next
    case False
    then have g: "g = (if g2 > 1 \<and> g2 < n then g2 else 0)" unfolding res by (rule if_not_P)
    show ?thesis
    proof (cases "g2 > 1 \<and> g2 < n")
      case True
      then have "g = g2" unfolding g by (rule if_P)
      then show ?thesis using True d2 by simp
    next
      case False
      then have "g = 0" unfolding g by (rule if_not_P)
      then show ?thesis using assms(2) by simp
    qed
  qed
qed

text \<open>
  C1 (soundness of the congruence extractor). Whatever the session, the dependency
  mask, the factor base and \<open>n\<close> are: a value \<open>g \<noteq> 0\<close> returned by
  \<^verbatim>\<open>attempt_dependency\<close> satisfies \<open>n mod g = 0\<close> and \<open>1 < g < n\<close>.
\<close>

theorem attempt_dependency_sound:
  "attempt_dependency s dm dep_words ps fbs n = Inr g \<Longrightarrow> g \<noteq> 0 \<Longrightarrow>
     n mod g = 0 \<and> 1 < g \<and> g < n"
proof -
  assume r: "attempt_dependency s dm dep_words ps fbs n = Inr g" and g0: "g \<noteq> 0"
  obtain total_r total_a where t: "sum_exponents s dm fbs = (total_r, total_a)"
    by (cases "sum_exponents s dm fbs")
  from r obtain x y where "square_roots total_r total_a ps fbs n 0 1 1 = Inr (x, y)"
    and "extract_factor x y n = g"
    by (auto simp: attempt_dependency_def t split: if_splits sum.splits)
  then show ?thesis using g0 extract_factor_sound by blast
qed

text \<open>
  A session with one relation, of exponent 2 in column 0, and the factor base 3, 5:
  for \<open>n = 8\<close> the extractor computes \<open>x = 1\<close>, \<open>y = 3\<close> and returns \<open>gcd(2, 8) = 2\<close>.
\<close>

definition demo_session :: session where
  "demo_session = empty_session\<lparr>relations := (\<lambda>i. \<lparr>a_offset = 1, r_exp = (\<lambda>j. 0), a_exp = (\<lambda>j. 0)(0 := 2)\<rparr>),
     relation_count := 1\<rparr>"

lemma demo_dependency:
  "attempt_dependency demo_session ((\<lambda>w. 0)(0 := 1)) 188 ((\<lambda>i. 0)(0 := 3, 1 := 5)) 2 8 = Inr 2"
  apply (simp only: attempt_dependency_def)
  apply (simp add: demo_session_def empty_session_def  MAX_FB_def MAX_REL_def)
  apply (simp add: sum_exponents_def add_exps_def test_bit_row_def)
  apply (simp add: square_roots.simps mul_pow_def pow_mod_def pow_mod_loop.simps mul_mod_def
      mul_mod_loop.simps)
  apply (simp add: extract_factor_def gcd_u128.simps Let_def word_le_one_iff)
  done

theorem attempt_dependency_sound_witness:
  "attempt_dependency demo_session ((\<lambda>w. 0)(0 := 1)) 188 ((\<lambda>i. 0)(0 := 3, 1 := 5)) 2 8 = Inr 2 \<and>
   (2::u128) \<noteq> 0 \<and> (8::u128) mod 2 = 0 \<and> (1::u128) < 2 \<and> (2::u128) < 8"
  using attempt_dependency_sound [OF demo_dependency] demo_dependency by simp

section \<open>The GF(2) matrix engine\<close>

subsection \<open>Bits of a row\<close>

lemma test_bit_row_iff: "test_bit_row row i = bit (row (i div 64)) (i mod 64)"
  by (simp add: test_bit_row_def bit_iff_and_push_bit_not_eq_0)

lemma test_bit_xor_rows:
  "i < 64 * words \<Longrightarrow>
     test_bit_row (xor_rows a b words) i = (test_bit_row a i \<noteq> test_bit_row b i)"
proof -
  assume "i < 64 * words"
  then have "i div 64 < words" by (simp add: less_mult_imp_div_less mult.commute)
  then show ?thesis by (simp add: test_bit_row_iff xor_rows_def bit_xor_iff)
qed

lemma test_bit_memcpy:
  "i < 64 * n \<Longrightarrow> test_bit_row (memcpy_words dst src n) i = test_bit_row src i"
proof -
  assume "i < 64 * n"
  then have "i div 64 < n" by (simp add: less_mult_imp_div_less mult.commute)
  then show ?thesis by (simp add: test_bit_row_iff memcpy_words_def)
qed

lemma test_bit_unit: "test_bit_row (or_bit_row (\<lambda>w. 0) k) i = (i = k)"
proof -
  have "bit (push_bit (k mod 64) (1::u64)) (i mod 64) = (i mod 64 = k mod 64)"
    by (auto simp: bit_exp_iff possible_bit_word)
  moreover have "(i div 64 = k div 64 \<and> i mod 64 = k mod 64) = (i = k)"
    by (metis div_mult_mod_eq)
  ultimately show ?thesis
    by (auto simp: test_bit_row_iff or_bit_row_def)
qed

lemma test_bit_zero_word: "row (i div 64) = 0 \<Longrightarrow> \<not> test_bit_row row i"
  by (simp add: test_bit_row_iff)

lemma row_is_zero_from_iff:
  "row_is_zero_from row words i = (\<forall>w. i \<le> w \<and> w < words \<longrightarrow> row w = 0)"
proof (induction row words i rule: row_is_zero_from.induct)
  case (1 row words i)
  show ?case
  proof (cases "i < words")
    case False
    then show ?thesis by (auto simp: row_is_zero_from.simps [of row words i])
  next
    case True
    show ?thesis
    proof (cases "row i = 0")
      case False
      then show ?thesis using True by (auto simp: row_is_zero_from.simps [of row words i])
    next
      case z: True
      have "row_is_zero_from row words i = row_is_zero_from row words (i + 1)"
        using True z by (simp add: row_is_zero_from.simps [of row words i])
      also have "\<dots> = (\<forall>w. i + 1 \<le> w \<and> w < words \<longrightarrow> row w = 0)"
        using 1 True z by simp
      also have "\<dots> = (\<forall>w. i \<le> w \<and> w < words \<longrightarrow> row w = 0)"
      proof (intro iffI allI impI)
        fix w assume a: "\<forall>w. i + 1 \<le> w \<and> w < words \<longrightarrow> row w = 0" and w: "i \<le> w \<and> w < words"
        show "row w = 0"
        proof (cases "w = i")
          case True
          then show ?thesis using z by simp
        next
          case False
          then have "i + 1 \<le> w" using w by simp
          then show ?thesis using a w by blast
        qed
      next
        fix w assume a: "\<forall>w. i \<le> w \<and> w < words \<longrightarrow> row w = 0" and w: "i + 1 \<le> w \<and> w < words"
        then have "i \<le> w \<and> w < words" by simp
        then show "row w = 0" using a by blast
      qed
      finally show ?thesis .
    qed
  qed
qed

lemma row_is_zero_iff: "row_is_zero row words = (\<forall>w<words. row w = 0)"
  by (simp add: row_is_zero_def row_is_zero_from_iff)

lemma row_is_zero_bits: "row_is_zero row words = (\<forall>i<64 * words. \<not> test_bit_row row i)"
proof
  assume z: "row_is_zero row words"
  show "\<forall>i<64 * words. \<not> test_bit_row row i"
  proof (intro allI impI)
    fix i assume "i < 64 * words"
    then have "i div 64 < words" by (simp add: less_mult_imp_div_less mult.commute)
    then have "row (i div 64) = 0" using z by (simp add: row_is_zero_iff)
    then show "\<not> test_bit_row row i" by (rule test_bit_zero_word)
  qed
next
  assume b: "\<forall>i<64 * words. \<not> test_bit_row row i"
  have "row w = 0" if w: "w < words" for w
  proof (rule bit_eqI)
    fix j
    show "bit (row w) j = bit (0::u64) j"
    proof (cases "j < 64")
      case True
      have "(w * 64 + j) div 64 = w" "(w * 64 + j) mod 64 = j" using True by simp_all
      moreover have "w * 64 + j < 64 * words" using True w by arith
      ultimately show ?thesis using b by (auto simp: test_bit_row_iff)
    next
      case False
      then have "\<not> bit (row w) j" using bit_imp_le_length [of "row w" j] by auto
      then show ?thesis by simp
    qed
  qed
  then show "row_is_zero row words" by (simp add: row_is_zero_iff)
qed


subsection \<open>The first set bit\<close>

lemma ctz_from_props:
  "\<exists>j. i \<le> j \<and> j < 64 \<and> bit x j \<Longrightarrow>
     ctz_from x i < 64 \<and> bit x (ctz_from x i) \<and> (\<forall>j. i \<le> j \<and> j < ctz_from x i \<longrightarrow> \<not> bit x j)"
proof (induction x i rule: ctz_from.induct)
  case (1 x i)
  from "1.prems" obtain j where j: "i \<le> j" "j < 64" "bit x j" by blast
  then have lt: "i < 64" by simp
  show ?case
  proof (cases "bit x i")
    case True
    then have "ctz_from x i = i" by (simp add: ctz_from.simps [of x i])
    then show ?thesis using True lt by auto
  next
    case False
    then have e: "ctz_from x i = ctz_from x (i + 1)" using lt by (simp add: ctz_from.simps [of x i])
    have "j \<noteq> i" using False j(3) by auto
    then have "i + 1 \<le> j" using j(1) by simp
    then have "\<exists>j. i + 1 \<le> j \<and> j < 64 \<and> bit x j" using j(2,3) by blast
    from "1.IH" [OF _ this] lt False
    have ih: "ctz_from x (i + 1) < 64" "bit x (ctz_from x (i + 1))"
      "\<forall>j. i + 1 \<le> j \<and> j < ctz_from x (i + 1) \<longrightarrow> \<not> bit x j" by simp_all
    have "\<forall>j. i \<le> j \<and> j < ctz_from x (i + 1) \<longrightarrow> \<not> bit x j"
    proof (intro allI impI)
      fix j' assume j': "i \<le> j' \<and> j' < ctz_from x (i + 1)"
      show "\<not> bit x j'"
      proof (cases "j' = i")
        case True
        then show ?thesis using False by simp
      next
        case F: False
        then have "i + 1 \<le> j'" using j' by simp
        then show ?thesis using ih(3) j' by blast
      qed
    qed
    then show ?thesis using ih(1,2) by (simp add: e)
  qed
qed

lemma ctzll_props:
  assumes "x \<noteq> 0"
  shows "ctzll x < 64" and "bit x (ctzll x)" and "\<forall>j<ctzll x. \<not> bit x j"
proof -
  have "\<exists>i<64. bit x i"
  proof (rule ccontr)
    assume n: "\<not> (\<exists>i<64. bit x i)"
    have "x = 0"
    proof (rule bit_eqI)
      fix j
      show "bit x j = bit (0::u64) j"
        using n bit_imp_le_length [of x j] by (cases "j < 64") auto
    qed
    then show False using assms by simp
  qed
  then have "\<exists>j. 0 \<le> j \<and> j < 64 \<and> bit x j" by blast
  from ctz_from_props [OF this]
  show "ctzll x < 64" and "bit x (ctzll x)" and "\<forall>j<ctzll x. \<not> bit x j"
    by (simp_all add: ctzll_def)
qed

lemma word_index_split:
  fixes w j c :: nat
  assumes "64 * w \<le> j" "j < w * 64 + c" "c \<le> 64"
  shows "j div 64 = w" and "j mod 64 < c"
proof -
  define r where "r = j - 64 * w"
  have j: "j = w * 64 + r" and r: "r < c" using assms by (simp_all add: r_def)
  then have r64: "r < 64" using assms(3) by simp
  show "j div 64 = w" unfolding j using r64 by simp
  show "j mod 64 < c" unfolding j using r64 r by simp
qed

lemma first_set_bit_from_props:
  "\<not> (\<forall>v. w \<le> v \<and> v < words \<longrightarrow> row v = 0) \<Longrightarrow>
     \<exists>pc. first_set_bit_from row words w = int pc \<and> pc < 64 * words \<and> 64 * w \<le> pc \<and>
          test_bit_row row pc \<and> (\<forall>j. 64 * w \<le> j \<and> j < pc \<longrightarrow> \<not> test_bit_row row j)"
proof (induction row words w rule: first_set_bit_from.induct)
  case (1 row words w)
  from "1.prems" obtain v where v: "w \<le> v" "v < words" "row v \<noteq> 0" by blast
  then have lt: "w < words" by simp
  show ?case
  proof (cases "row w = 0")
    case False
    let ?c = "ctzll (row w)"
    let ?pc = "w * 64 + ?c"
    note c = ctzll_props [OF False]
    have d: "?pc div 64 = w" "?pc mod 64 = ?c" using c(1) by simp_all
    have "first_set_bit_from row words w = int ?pc"
      using lt False by (simp add: first_set_bit_from.simps [of row words w])
    moreover have "?pc < 64 * words"
    proof -
      have "?pc < w * 64 + 64" using c(1) by simp
      also have "\<dots> = 64 * (w + 1)" by simp
      also have "\<dots> \<le> 64 * words" using lt by (intro mult_le_mono2) simp
      finally show ?thesis .
    qed
    moreover have "64 * w \<le> ?pc" by simp
    moreover have "test_bit_row row ?pc" using c(2) d by (simp add: test_bit_row_iff)
    moreover have "\<forall>j. 64 * w \<le> j \<and> j < ?pc \<longrightarrow> \<not> test_bit_row row j"
    proof (intro allI impI)
      fix j assume j: "64 * w \<le> j \<and> j < ?pc"
      then have "j div 64 = w" "j mod 64 < ?c"
        using c(1) word_index_split [of w j ?c] by simp_all
      then show "\<not> test_bit_row row j" using c(3) by (simp add: test_bit_row_iff)
    qed
    ultimately show ?thesis by blast
  next
    case True
    have "v \<noteq> w" using True v by auto
    then have "w + 1 \<le> v" using v(1) by simp
    then have "\<not> (\<forall>v. w + 1 \<le> v \<and> v < words \<longrightarrow> row v = 0)" using v(2,3) by blast
    from "1.IH" [OF lt _ this] True
    obtain pc where pc: "first_set_bit_from row words (w + 1) = int pc" "pc < 64 * words"
      "64 * (w + 1) \<le> pc" "test_bit_row row pc"
      "\<forall>j. 64 * (w + 1) \<le> j \<and> j < pc \<longrightarrow> \<not> test_bit_row row j" by auto
    have "first_set_bit_from row words w = int pc"
      using lt True pc(1) by (simp add: first_set_bit_from.simps [of row words w])
    moreover have "64 * w \<le> pc" using pc(3) by simp
    moreover have "\<forall>j. 64 * w \<le> j \<and> j < pc \<longrightarrow> \<not> test_bit_row row j"
    proof (intro allI impI)
      fix j assume j: "64 * w \<le> j \<and> j < pc"
      show "\<not> test_bit_row row j"
      proof (cases "64 * (w + 1) \<le> j")
        case True
        then show ?thesis using pc(5) j by blast
      next
        case False
        then have "j div 64 = w" using j word_index_split(1) [of w j 64] by simp
        then show ?thesis using True by (simp add: test_bit_zero_word)
      qed
    qed
    ultimately show ?thesis using pc(2) pc(4) by blast
  qed
qed

lemma first_set_bit_props:
  assumes "\<not> row_is_zero row words"
  shows "\<exists>pc. first_set_bit row words = int pc \<and> pc < 64 * words \<and>
          test_bit_row row pc \<and> (\<forall>j<pc. \<not> test_bit_row row j)"
proof -
  have "\<not> (\<forall>v. 0 \<le> v \<and> v < words \<longrightarrow> row v = 0)"
    using assms by (simp add: row_is_zero_iff)
  from first_set_bit_from_props [OF this]
  show ?thesis by (auto simp: first_set_bit_def)
qed


subsection \<open>What \<^verbatim>\<open>insert_row\<close> does to the session\<close>

lemma reduce_rows_step:
  "r < matrix_rows s \<Longrightarrow>
     reduce_rows s cw cbw r row combo =
       (if test_bit_row row (pivot_col s r)
        then reduce_rows s cw cbw (r + 1) (xor_rows row (row_bits s r) cw)
               (xor_rows combo (combo_bits s r) cbw)
        else reduce_rows s cw cbw (r + 1) row combo)"
  by (subst reduce_rows.simps) simp

lemma reduce_rows_done: "matrix_rows s \<le> r \<Longrightarrow> reduce_rows s cw cbw r row combo = (row, combo)"
  by (subst reduce_rows.simps) simp

lemma reduce_rows_relations:
  "reduce_rows (s\<lparr>relations := rels\<rparr>) cw cbw r row combo = reduce_rows s cw cbw r row combo"
proof (induction s cw cbw r row combo rule: reduce_rows.induct)
  case (1 s cw cbw r row combo)
  show ?case
  proof (cases "r < matrix_rows s")
    case True
    then show ?thesis
      using 1 by (simp add: reduce_rows_step [of r s] reduce_rows_step [of r "s\<lparr>relations := rels\<rparr>"])
  next
    case False
    then show ?thesis by (simp add: reduce_rows_done)
  qed
qed

definition store_pivot ::
  "session \<Rightarrow> (nat \<Rightarrow> u64) \<Rightarrow> (nat \<Rightarrow> u64) \<Rightarrow> nat \<Rightarrow> nat \<Rightarrow> nat \<Rightarrow> session" where
  "store_pivot s row combo col_words combo_words pc =
     s\<lparr>row_bits := (row_bits s)
          (matrix_rows s := memcpy_words (row_bits s (matrix_rows s)) row col_words),
       combo_bits := (combo_bits s)
          (matrix_rows s := memcpy_words (combo_bits s (matrix_rows s)) combo combo_words),
       pivot_col := (pivot_col s)(matrix_rows s := pc),
       matrix_rows := matrix_rows s + 1\<rparr>"

lemma insert_row_cases:
  assumes "insert_row s row0 combo0 cw cbw dm = Inr (dependent, dm', s')"
    and "reduce_rows s cw cbw 0 row0 combo0 = (row, combo)"
  obtains (dependency) "row_is_zero row cw" "dependent = 1" "dm' = memcpy_words dm combo cbw" "s' = s"
  | (pivot) pc where "\<not> row_is_zero row cw" "dependent = 0" "dm' = dm" "matrix_rows s < MAX_REL"
      "first_set_bit row cw = int pc" "pc < 64 * cw" "test_bit_row row pc"
      "\<forall>j<pc. \<not> test_bit_row row j" "s' = store_pivot s row combo cw cbw pc"
proof (cases "row_is_zero row cw")
  case True
  then show ?thesis using assms dependency by (simp add: insert_row_def)
next
  case False
  from first_set_bit_props [OF False]
  obtain pc where pc: "first_set_bit row cw = int pc" "pc < 64 * cw" "test_bit_row row pc"
    "\<forall>j<pc. \<not> test_bit_row row j" by (elim exE conjE)
  have "\<not> first_set_bit row cw < 0" using pc(1) by simp
  then show ?thesis
    using assms False pc pivot [of pc]
    by (simp add: insert_row_def store_pivot_def Let_def split: if_splits)
qed

lemma insert_row_returns:
  "matrix_rows s < MAX_REL \<Longrightarrow> \<exists>dependent dm' s'. insert_row s row0 combo0 cw cbw dm = Inr (dependent, dm', s')"
  by (simp add: insert_row_def Let_def split: prod.splits)


subsection \<open>The echelon invariant\<close>

text \<open>
  The recorded pivot column of every stored row is the lowest set bit of the row
  (\<open>pivots_lowest\<close>), no stored row has a bit at the pivot column of a row stored
  before it (\<open>pivots_cleared\<close>), and the pivot columns are pairwise distinct
  (\<open>pivots_distinct\<close>).
\<close>

definition pivots_lowest :: "nat \<Rightarrow> session \<Rightarrow> bool" where
  "pivots_lowest col_words s =
     (\<forall>r<matrix_rows s. pivot_col s r < 64 * col_words \<and>
        test_bit_row (row_bits s r) (pivot_col s r) \<and>
        (\<forall>j<pivot_col s r. \<not> test_bit_row (row_bits s r) j))"

definition pivots_cleared :: "session \<Rightarrow> bool" where
  "pivots_cleared s =
     (\<forall>r<matrix_rows s. \<forall>r'<r. \<not> test_bit_row (row_bits s r) (pivot_col s r'))"

definition pivots_distinct :: "session \<Rightarrow> bool" where
  "pivots_distinct s = (\<forall>r<matrix_rows s. \<forall>r'<r. pivot_col s r \<noteq> pivot_col s r')"

lemma pivots_distinctI: "pivots_lowest cw s \<Longrightarrow> pivots_cleared s \<Longrightarrow> pivots_distinct s"
  unfolding pivots_lowest_def pivots_cleared_def pivots_distinct_def by metis

lemma reduce_rows_clears:
  "pivots_lowest cw s \<Longrightarrow> pivots_cleared s \<Longrightarrow>
     \<forall>r'<r. r' < matrix_rows s \<longrightarrow> \<not> test_bit_row row (pivot_col s r') \<Longrightarrow>
     \<forall>r'<matrix_rows s. \<not> test_bit_row (fst (reduce_rows s cw cbw r row combo)) (pivot_col s r')"
proof (induction s cw cbw r row combo rule: reduce_rows.induct)
  case (1 s cw cbw r row combo)
  show ?case
  proof (cases "r < matrix_rows s")
    case False
    then show ?thesis using "1.prems"(3) by (simp add: reduce_rows_done)
  next
    case True
    note low = "1.prems"(1) [unfolded pivots_lowest_def, rule_format]
    note clr = "1.prems"(2) [unfolded pivots_cleared_def, rule_format]
    show ?thesis
    proof (cases "test_bit_row row (pivot_col s r)")
      case False
      have "\<forall>r'<r + 1. r' < matrix_rows s \<longrightarrow> \<not> test_bit_row row (pivot_col s r')"
        using "1.prems"(3) False by (auto simp: less_Suc_eq)
      from "1.IH"(2) [OF True False "1.prems"(1) "1.prems"(2) this]
      show ?thesis using True False by (simp add: reduce_rows_step)
    next
      case b: True
      let ?row = "xor_rows row (row_bits s r) cw"
      have "\<forall>r'<r + 1. r' < matrix_rows s \<longrightarrow> \<not> test_bit_row ?row (pivot_col s r')"
      proof (intro allI impI)
        fix r' assume r': "r' < r + 1" "r' < matrix_rows s"
        have pc: "pivot_col s r' < 64 * cw" using low [OF r'(2)] by simp
        show "\<not> test_bit_row ?row (pivot_col s r')"
        proof (cases "r' = r")
          case True
          then show ?thesis using b low [OF r'(2)] pc by (simp add: test_bit_xor_rows)
        next
          case False
          then have lt: "r' < r" using r'(1) by simp
          have "\<not> test_bit_row row (pivot_col s r')" using "1.prems"(3) lt r'(2) by blast
          moreover have "\<not> test_bit_row (row_bits s r) (pivot_col s r')" using clr [OF True lt] .
          ultimately show ?thesis using pc by (simp add: test_bit_xor_rows)
        qed
      qed
      from "1.IH"(1) [OF True b "1.prems"(1) "1.prems"(2) this]
      show ?thesis using True b by (simp add: reduce_rows_step)
    qed
  qed
qed

lemma store_pivot_fields [simp]:
  "matrix_rows (store_pivot s row combo cw cbw pc) = matrix_rows s + 1"
  "relation_count (store_pivot s row combo cw cbw pc) = relation_count s"
  "r < matrix_rows s \<Longrightarrow> row_bits (store_pivot s row combo cw cbw pc) r = row_bits s r"
  "r < matrix_rows s \<Longrightarrow> combo_bits (store_pivot s row combo cw cbw pc) r = combo_bits s r"
  "r < matrix_rows s \<Longrightarrow> pivot_col (store_pivot s row combo cw cbw pc) r = pivot_col s r"
  "pivot_col (store_pivot s row combo cw cbw pc) (matrix_rows s) = pc"
  "row_bits (store_pivot s row combo cw cbw pc) (matrix_rows s)
     = memcpy_words (row_bits s (matrix_rows s)) row cw"
  "combo_bits (store_pivot s row combo cw cbw pc) (matrix_rows s)
     = memcpy_words (combo_bits s (matrix_rows s)) combo cbw"
  by (simp_all add: store_pivot_def)

lemma store_pivot_echelon:
  assumes low: "pivots_lowest cw s" and clr: "pivots_cleared s"
    and pc: "pc < 64 * cw" "test_bit_row row pc" "\<forall>j<pc. \<not> test_bit_row row j"
    and red: "\<forall>r'<matrix_rows s. \<not> test_bit_row row (pivot_col s r')"
  shows "pivots_lowest cw (store_pivot s row combo cw cbw pc)"
    and "pivots_cleared (store_pivot s row combo cw cbw pc)"
proof -
  let ?s = "store_pivot s row combo cw cbw pc"
  note low' = low [unfolded pivots_lowest_def, rule_format]
  note clr' = clr [unfolded pivots_cleared_def, rule_format]
  show "pivots_lowest cw ?s"
    unfolding pivots_lowest_def
  proof (intro allI impI)
    fix r assume "r < matrix_rows ?s"
    then have r: "r < matrix_rows s \<or> r = matrix_rows s" by auto
    show "pivot_col ?s r < 64 * cw \<and> test_bit_row (row_bits ?s r) (pivot_col ?s r) \<and>
        (\<forall>j<pivot_col ?s r. \<not> test_bit_row (row_bits ?s r) j)"
    proof (cases "r < matrix_rows s")
      case True
      then show ?thesis using low' [OF True] by simp
    next
      case False
      then have e: "r = matrix_rows s" using r by simp
      have "\<forall>j<pc. \<not> test_bit_row (memcpy_words (row_bits s (matrix_rows s)) row cw) j"
        using pc by (simp add: test_bit_memcpy)
      then show ?thesis using pc by (simp add: e test_bit_memcpy)
    qed
  qed
  show "pivots_cleared ?s"
    unfolding pivots_cleared_def
  proof (intro allI impI)
    fix r r' assume r: "r < matrix_rows ?s" and r': "r' < r"
    show "\<not> test_bit_row (row_bits ?s r) (pivot_col ?s r')"
    proof (cases "r < matrix_rows s")
      case True
      then have "r' < matrix_rows s" using r' by simp
      then show ?thesis using clr' [OF True r'] True by simp
    next
      case False
      then have e: "r = matrix_rows s" using r by simp
      then have lt: "r' < matrix_rows s" using r' by simp
      have "pivot_col s r' < 64 * cw" using low' [OF lt] by simp
      then show ?thesis using red lt by (simp add: e test_bit_memcpy)
    qed
  qed
qed


subsection \<open>Combinations of inserted rows\<close>

text \<open>
  \<open>comb orig combo k\<close> is the XOR of the rows \<open>orig i\<close> for the indices \<open>i < k\<close> whose
  bit is set in the combination vector \<open>combo\<close>.
\<close>

primrec comb :: "(nat \<Rightarrow> nat \<Rightarrow> u64) \<Rightarrow> (nat \<Rightarrow> u64) \<Rightarrow> nat \<Rightarrow> nat \<Rightarrow> u64" where
  "comb orig combo 0 w = 0"
| "comb orig combo (Suc i) w =
     (if test_bit_row combo i then comb orig combo i w XOR orig i w else comb orig combo i w)"

lemma comb_xor:
  "k \<le> 64 * cbw \<Longrightarrow>
     comb orig (xor_rows c1 c2 cbw) k w = comb orig c1 k w XOR comb orig c2 k w"
proof (induction k)
  case 0
  then show ?case by simp
next
  case (Suc k)
  then have "k < 64 * cbw" by simp
  then have t: "test_bit_row (xor_rows c1 c2 cbw) k = (test_bit_row c1 k \<noteq> test_bit_row c2 k)"
    by (rule test_bit_xor_rows)
  have ih: "comb orig (xor_rows c1 c2 cbw) k w = comb orig c1 k w XOR comb orig c2 k w"
    using Suc by simp
  show ?case
    by (cases "test_bit_row c1 k"; cases "test_bit_row c2 k")
       (simp_all add: t ih ac_simps)
qed

lemma comb_unit: "comb orig (or_bit_row (\<lambda>w. 0) i) k w = (if i < k then orig i w else 0)"
  by (induction k) (auto simp: test_bit_unit less_Suc_eq)

lemma comb_cong_bits:
  "\<forall>i<k. test_bit_row c1 i = test_bit_row c2 i \<Longrightarrow> comb orig c1 k w = comb orig c2 k w"
  by (induction k) simp_all

lemma comb_memcpy: "k \<le> 64 * cbw \<Longrightarrow> comb orig (memcpy_words dm combo cbw) k w = comb orig combo k w"
  by (rule comb_cong_bits) (simp add: test_bit_memcpy)



text \<open>
  Every stored row is the combination of the inserted rows that its stored
  combination vector names (\<open>combo_inv\<close>), and a stored combination vector names only
  rows that were inserted (\<open>combo_support\<close>).
\<close>

definition combo_inv :: "nat \<Rightarrow> nat \<Rightarrow> (nat \<Rightarrow> nat \<Rightarrow> u64) \<Rightarrow> session \<Rightarrow> bool" where
  "combo_inv col_words combo_words orig s =
     (\<forall>r<matrix_rows s. \<forall>w<col_words.
        row_bits s r w = comb orig (combo_bits s r) (64 * combo_words) w)"

definition combo_support :: "nat \<Rightarrow> session \<Rightarrow> bool" where
  "combo_support combo_words s =
     (\<forall>r<matrix_rows s. \<forall>i<64 * combo_words.
        test_bit_row (combo_bits s r) i \<longrightarrow> i < relation_count s)"

lemma reduce_rows_comb:
  "combo_inv cw cbw orig s \<Longrightarrow> \<forall>w<cw. row w = comb orig combo (64 * cbw) w \<Longrightarrow>
     reduce_rows s cw cbw r row combo = (row', combo') \<Longrightarrow>
     \<forall>w<cw. row' w = comb orig combo' (64 * cbw) w"
proof (induction s cw cbw r row combo rule: reduce_rows.induct)
  case (1 s cw cbw r row combo)
  show ?case
  proof (cases "r < matrix_rows s")
    case False
    then show ?thesis using "1.prems" by (simp add: reduce_rows_done)
  next
    case True
    note inv = "1.prems"(1) [unfolded combo_inv_def, rule_format, OF True]
    show ?thesis
    proof (cases "test_bit_row row (pivot_col s r)")
      case False
      then have "reduce_rows s cw cbw (r + 1) row combo = (row', combo')"
        using "1.prems"(3) True by (simp add: reduce_rows_step)
      from "1.IH"(2) [OF True False "1.prems"(1) "1.prems"(2) this] show ?thesis .
    next
      case b: True
      let ?row = "xor_rows row (row_bits s r) cw"
      let ?combo = "xor_rows combo (combo_bits s r) cbw"
      have eq: "\<forall>w<cw. ?row w = comb orig ?combo (64 * cbw) w"
        using "1.prems"(2) inv by (simp add: comb_xor) (simp add: xor_rows_def)
      have "reduce_rows s cw cbw (r + 1) ?row ?combo = (row', combo')"
        using "1.prems"(3) True b by (simp add: reduce_rows_step)
      from "1.IH"(1) [OF True b "1.prems"(1) eq this] show ?thesis .
    qed
  qed
qed

lemma reduce_rows_support:
  "combo_support cbw s \<Longrightarrow> relation_count s \<le> k \<Longrightarrow>
     \<forall>i<64 * cbw. test_bit_row combo i \<longrightarrow> i \<le> k \<Longrightarrow>
     reduce_rows s cw cbw r row combo = (row', combo') \<Longrightarrow>
     \<forall>i<64 * cbw. test_bit_row combo' i \<longrightarrow> i \<le> k"
proof (induction s cw cbw r row combo rule: reduce_rows.induct)
  case (1 s cw cbw r row combo)
  show ?case
  proof (cases "r < matrix_rows s")
    case False
    then show ?thesis using "1.prems" by (simp add: reduce_rows_done)
  next
    case True
    note sup = "1.prems"(1) [unfolded combo_support_def, rule_format, OF True]
    show ?thesis
    proof (cases "test_bit_row row (pivot_col s r)")
      case False
      then have "reduce_rows s cw cbw (r + 1) row combo = (row', combo')"
        using "1.prems"(4) True by (simp add: reduce_rows_step)
      from "1.IH"(2) [OF True False "1.prems"(1) "1.prems"(2) "1.prems"(3) this] show ?thesis .
    next
      case b: True
      let ?combo = "xor_rows combo (combo_bits s r) cbw"
      have bits: "\<forall>i<64 * cbw. test_bit_row ?combo i \<longrightarrow> i \<le> k"
      proof (intro allI impI)
        fix i assume i: "i < 64 * cbw" and t: "test_bit_row ?combo i"
        then have "test_bit_row combo i \<or> test_bit_row (combo_bits s r) i"
          by (auto simp: test_bit_xor_rows)
        then show "i \<le> k"
          using "1.prems"(3) [rule_format, OF i] sup [OF i] "1.prems"(2) by auto
      qed
      have "reduce_rows s cw cbw (r + 1) (xor_rows row (row_bits s r) cw) ?combo = (row', combo')"
        using "1.prems"(4) True b by (simp add: reduce_rows_step)
      from "1.IH"(1) [OF True b "1.prems"(1) "1.prems"(2) bits this] show ?thesis .
    qed
  qed
qed


subsection \<open>Reducing again a row that was inserted before\<close>

lemma reduce_rows_zero:
  "pivots_lowest cw s \<Longrightarrow> \<forall>w<cw. row w = 0 \<Longrightarrow>
     reduce_rows s cw cbw r row combo = (row, combo)"
proof (induction s cw cbw r row combo rule: reduce_rows.induct)
  case (1 s cw cbw r row combo)
  show ?case
  proof (cases "r < matrix_rows s")
    case False
    then show ?thesis by (simp add: reduce_rows_done)
  next
    case True
    have "pivot_col s r < 64 * cw"
      using "1.prems"(1) True by (simp add: pivots_lowest_def)
    then have "pivot_col s r div 64 < cw" by (simp add: less_mult_imp_div_less mult.commute)
    then have "row (pivot_col s r div 64) = 0" using "1.prems"(2) by simp
    then have nb: "\<not> test_bit_row row (pivot_col s r)" by (rule test_bit_zero_word)
    from "1.IH"(2) [OF True nb "1.prems"] show ?thesis using True nb by (simp add: reduce_rows_step)
  qed
qed

lemma reduce_rows_store_pivot:
  "r \<le> matrix_rows s \<Longrightarrow> reduce_rows s cw cbw r row combo = (row1, combo1) \<Longrightarrow>
     reduce_rows (store_pivot s prow pcombo cw cbw pc) cw cbw r row combo =
       (if test_bit_row row1 pc
        then (xor_rows row1 (memcpy_words (row_bits s (matrix_rows s)) prow cw) cw,
              xor_rows combo1 (memcpy_words (combo_bits s (matrix_rows s)) pcombo cbw) cbw)
        else (row1, combo1))"
proof (induction s cw cbw r row combo rule: reduce_rows.induct)
  case (1 s cw cbw r row combo)
  let ?s = "store_pivot s prow pcombo cw cbw pc"
  show ?case
  proof (cases "r < matrix_rows s")
    case False
    then have e: "r = matrix_rows s" using "1.prems"(1) by simp
    then have "row1 = row" "combo1 = combo" using "1.prems"(2) by (simp_all add: reduce_rows_done)
    then show ?thesis
      by (simp add: e reduce_rows_step [of "matrix_rows s" ?s] reduce_rows_done)
  next
    case True
    then have lt: "r < matrix_rows ?s" by simp
    show ?thesis
    proof (cases "test_bit_row row (pivot_col s r)")
      case False
      then have "reduce_rows s cw cbw (r + 1) row combo = (row1, combo1)"
        using "1.prems"(2) True by (simp add: reduce_rows_step)
      from "1.IH"(2) [OF True False _ this] True False
      show ?thesis by (simp add: reduce_rows_step [OF lt])
    next
      case b: True
      then have "reduce_rows s cw cbw (r + 1) (xor_rows row (row_bits s r) cw)
          (xor_rows combo (combo_bits s r) cbw) = (row1, combo1)"
        using "1.prems"(2) True by (simp add: reduce_rows_step)
      from "1.IH"(1) [OF True b _ this] True b
      show ?thesis by (simp add: reduce_rows_step [OF lt])
    qed
  qed
qed

lemma xor_rows_self_zero: "\<forall>w<cw. xor_rows row (memcpy_words old row cw) cw w = 0"
  by (simp add: xor_rows_def memcpy_words_def)

text \<open>
  \<open>rereduce_zero\<close>: reducing any of the rows inserted so far against the stored
  pivots gives the zero row, whatever combination vector goes with it.
\<close>

definition rereduce_zero :: "nat \<Rightarrow> nat \<Rightarrow> (nat \<Rightarrow> nat \<Rightarrow> u64) \<Rightarrow> session \<Rightarrow> bool" where
  "rereduce_zero col_words combo_words orig s =
     (\<forall>i<relation_count s. \<forall>combo.
        row_is_zero (fst (reduce_rows s col_words combo_words 0 (orig i) combo)) col_words)"

lemma reduce_rows_fst:
  "\<forall>combo2. fst (reduce_rows s cw cbw r row combo) = fst (reduce_rows s cw cbw r row combo2)"
proof (induction s cw cbw r row combo rule: reduce_rows.induct)
  case (1 s cw cbw r row combo)
  show ?case
  proof (cases "r < matrix_rows s")
    case False
    then show ?thesis by (simp add: reduce_rows_done)
  next
    case True
    show ?thesis
    proof (cases "test_bit_row row (pivot_col s r)")
      case False
      then show ?thesis using "1.IH"(2) [OF True False] True by (simp add: reduce_rows_step)
    next
      case b: True
      then show ?thesis using "1.IH"(1) [OF True b] True by (simp add: reduce_rows_step)
    qed
  qed
qed

lemma reduce_rows_fst_eq:
  "fst (reduce_rows s cw cbw r row c1) = fst (reduce_rows s cw cbw r row c2)"
  by (rule reduce_rows_fst [rule_format])

lemma rereduce_store_pivot:
  assumes pc: "pc < 64 * cw"
    and z: "row_is_zero (fst (reduce_rows s cw cbw 0 row combo)) cw"
  shows "row_is_zero (fst (reduce_rows (store_pivot s prow pcombo cw cbw pc) cw cbw 0 row combo)) cw"
proof -
  obtain row1 combo1 where r: "reduce_rows s cw cbw 0 row combo = (row1, combo1)"
    by (cases "reduce_rows s cw cbw 0 row combo")
  have z1: "\<forall>w<cw. row1 w = 0" using z r by (simp add: row_is_zero_iff)
  have "pc div 64 < cw" using pc by (simp add: less_mult_imp_div_less mult.commute)
  then have "row1 (pc div 64) = 0" using z1 by simp
  then have "\<not> test_bit_row row1 pc" by (rule test_bit_zero_word)
  then show ?thesis using reduce_rows_store_pivot [OF _ r, of prow pcombo pc] z r by simp
qed

lemma rereduce_new_pivot:
  assumes r: "reduce_rows s cw cbw 0 row combo = (row1, combo1)" and b: "test_bit_row row1 pc"
  shows "row_is_zero (fst (reduce_rows (store_pivot s row1 combo1 cw cbw pc) cw cbw 0 row combo2)) cw"
proof -
  have "fst (reduce_rows (store_pivot s row1 combo1 cw cbw pc) cw cbw 0 row combo2)
      = fst (reduce_rows (store_pivot s row1 combo1 cw cbw pc) cw cbw 0 row combo)"
    by (rule reduce_rows_fst_eq)
  also have "\<dots> = xor_rows row1 (memcpy_words (row_bits s (matrix_rows s)) row1 cw) cw"
    using reduce_rows_store_pivot [OF _ r, of row1 combo1 pc] b by simp
  finally show ?thesis using xor_rows_self_zero [of cw row1] by (simp add: row_is_zero_iff)
qed

subsection \<open>Runs of the engine\<close>

text \<open>
  The calls of \<^verbatim>\<open>insert_row\<close> in one run of \<^verbatim>\<open>snfs_factor\<close>, as a step relation on the
  session. The counters start at 0; the row of the relation with index
  \<^verbatim>\<open>relation_count\<close> is inserted with the identity combination
  \<^verbatim>\<open>combo[relation_count / 64] |= (uint64_t)1 << (relation_count % 64)\<close>, which lies
  inside the \<^verbatim>\<open>combo_words\<close> words of the vector, and \<^verbatim>\<open>relation_count++\<close> follows.
  Between two calls the program stores relations, which the engine does not read.
  \<open>orig i\<close> is the row inserted for the relation \<open>i\<close>.
\<close>

inductive engine :: "nat \<Rightarrow> nat \<Rightarrow> (nat \<Rightarrow> nat \<Rightarrow> u64) \<Rightarrow> session \<Rightarrow> bool"
  for col_words combo_words orig where
  engine_start:
    "matrix_rows s = 0 \<Longrightarrow> relation_count s = 0 \<Longrightarrow> engine col_words combo_words orig s"
| engine_store:
    "engine col_words combo_words orig s \<Longrightarrow>
     engine col_words combo_words orig (s\<lparr>relations := rels\<rparr>)"
| engine_insert:
    "engine col_words combo_words orig s \<Longrightarrow> relation_count s < 64 * combo_words \<Longrightarrow>
     insert_row s (orig (relation_count s)) (or_bit_row (\<lambda>w. 0) (relation_count s))
       col_words combo_words dm = Inr (dependent, dm', s') \<Longrightarrow>
     engine col_words combo_words orig (s'\<lparr>relation_count := relation_count s' + 1\<rparr>)"

definition engine_inv :: "nat \<Rightarrow> nat \<Rightarrow> (nat \<Rightarrow> nat \<Rightarrow> u64) \<Rightarrow> session \<Rightarrow> bool" where
  "engine_inv cw cbw orig s =
     (pivots_lowest cw s \<and> pivots_cleared s \<and> combo_inv cw cbw orig s \<and>
      combo_support cbw s \<and> rereduce_zero cw cbw orig s)"

lemma engine_inv_count [simp]:
  "pivots_lowest cw (s\<lparr>relation_count := c\<rparr>) = pivots_lowest cw s"
  "pivots_cleared (s\<lparr>relation_count := c\<rparr>) = pivots_cleared s"
  "combo_inv cw cbw orig (s\<lparr>relation_count := c\<rparr>) = combo_inv cw cbw orig s"
  by (simp_all add: pivots_lowest_def pivots_cleared_def combo_inv_def)

lemma reduce_rows_count:
  "reduce_rows (s\<lparr>relation_count := c\<rparr>) cw cbw r row combo = reduce_rows s cw cbw r row combo"
proof (induction s cw cbw r row combo rule: reduce_rows.induct)
  case (1 s cw cbw r row combo)
  show ?case
  proof (cases "r < matrix_rows s")
    case True
    then show ?thesis
      using 1 by (simp add: reduce_rows_step [of r s] reduce_rows_step [of r "s\<lparr>relation_count := c\<rparr>"])
  next
    case False
    then show ?thesis by (simp add: reduce_rows_done)
  qed
qed

lemma engine_inv_relations:
  "engine_inv cw cbw orig (s\<lparr>relations := rels\<rparr>) = engine_inv cw cbw orig s"
  by (simp add: engine_inv_def pivots_lowest_def pivots_cleared_def combo_inv_def
      combo_support_def rereduce_zero_def reduce_rows_relations)


lemma comb_unit_start:
  "k < 64 * cbw \<Longrightarrow> \<forall>w<cw. orig k w = comb orig (or_bit_row (\<lambda>w. 0) k) (64 * cbw) w"
  by (simp add: comb_unit)

lemma engine_inv_insert:
  assumes inv: "engine_inv cw cbw orig s"
    and k: "relation_count s < 64 * cbw"
    and ins: "insert_row s (orig (relation_count s)) (or_bit_row (\<lambda>w. 0) (relation_count s))
                cw cbw dm = Inr (dependent, dm', s')"
  shows "engine_inv cw cbw orig (s'\<lparr>relation_count := relation_count s' + 1\<rparr>)"
proof -
  let ?k = "relation_count s"
  let ?unit = "or_bit_row (\<lambda>w. 0) ?k"
  obtain row combo where red: "reduce_rows s cw cbw 0 (orig ?k) ?unit = (row, combo)"
    by (cases "reduce_rows s cw cbw 0 (orig ?k) ?unit")
  have low: "pivots_lowest cw s" and clr: "pivots_cleared s" and cinv: "combo_inv cw cbw orig s"
    and sup: "combo_support cbw s" and rz: "rereduce_zero cw cbw orig s"
    using inv by (simp_all add: engine_inv_def)
  have row_comb: "\<forall>w<cw. row w = comb orig combo (64 * cbw) w"
    using reduce_rows_comb [OF cinv comb_unit_start [OF k] red] .
  have combo_bits: "\<forall>i<64 * cbw. test_bit_row combo i \<longrightarrow> i \<le> ?k"
    using reduce_rows_support [OF sup order_refl _ red] by (simp add: test_bit_unit)
  have cleared: "\<forall>r'<matrix_rows s. \<not> test_bit_row row (pivot_col s r')"
    using reduce_rows_clears [OF low clr, of 0 "orig ?k" cbw ?unit] red by simp
  from ins red show ?thesis
  proof (cases rule: insert_row_cases)
    case dependency
    have "combo_support cbw (s\<lparr>relation_count := ?k + 1\<rparr>)"
      using sup by (auto simp: combo_support_def less_Suc_eq)
    moreover have "rereduce_zero cw cbw orig (s\<lparr>relation_count := ?k + 1\<rparr>)"
      unfolding rereduce_zero_def
    proof (intro allI impI)
      fix i combo2 assume "i < relation_count (s\<lparr>relation_count := ?k + 1\<rparr>)"
      then have i: "i < ?k \<or> i = ?k" by auto
      show "row_is_zero (fst (reduce_rows (s\<lparr>relation_count := ?k + 1\<rparr>) cw cbw 0 (orig i) combo2)) cw"
      proof (cases "i < ?k")
        case True
        then show ?thesis using rz by (simp add: rereduce_zero_def reduce_rows_count)
      next
        case False
        then have e: "i = ?k" using i by simp
        have "fst (reduce_rows s cw cbw 0 (orig ?k) combo2) = fst (reduce_rows s cw cbw 0 (orig ?k) ?unit)"
          by (rule reduce_rows_fst_eq)
        then have "fst (reduce_rows s cw cbw 0 (orig ?k) combo2) = row"
          by (simp add: red)
        then show ?thesis using dependency(1) by (simp add: e reduce_rows_count)
      qed
    qed
    ultimately show ?thesis using low clr cinv dependency(4) by (simp add: engine_inv_def)
  next
    case (pivot pc)
    let ?s = "store_pivot s row combo cw cbw pc"
    note ech = store_pivot_echelon [OF low clr pivot(6) pivot(7) pivot(8) cleared, of combo cbw]
    have "combo_inv cw cbw orig ?s"
      unfolding combo_inv_def
    proof (intro allI impI)
      fix r w assume r: "r < matrix_rows ?s" and w: "w < cw"
      show "row_bits ?s r w = comb orig (combo_bits ?s r) (64 * cbw) w"
      proof (cases "r < matrix_rows s")
        case True
        then show ?thesis using cinv w by (simp add: combo_inv_def)
      next
        case False
        then have e: "r = matrix_rows s" using r by simp
        show ?thesis using row_comb w by (simp add: e comb_memcpy) (simp add: memcpy_words_def)
      qed
    qed
    moreover have "combo_support cbw (?s\<lparr>relation_count := ?k + 1\<rparr>)"
      unfolding combo_support_def
    proof (intro allI impI)
      fix r i assume r: "r < matrix_rows (?s\<lparr>relation_count := ?k + 1\<rparr>)"
        and i: "i < 64 * cbw"
        and t: "test_bit_row (combo_bits (?s\<lparr>relation_count := ?k + 1\<rparr>) r) i"
      show "i < relation_count (?s\<lparr>relation_count := ?k + 1\<rparr>)"
      proof (cases "r < matrix_rows s")
        case True
        then have "i < ?k" using sup i t by (simp add: combo_support_def)
        then show ?thesis by simp
      next
        case False
        then have e: "r = matrix_rows s" using r by simp
        have "test_bit_row combo i" using t i by (simp add: e test_bit_memcpy)
        then have "i \<le> ?k" using combo_bits i by blast
        then show ?thesis by simp
      qed
    qed
    moreover have "rereduce_zero cw cbw orig (?s\<lparr>relation_count := ?k + 1\<rparr>)"
      unfolding rereduce_zero_def
    proof (intro allI impI)
      fix i combo2 assume "i < relation_count (?s\<lparr>relation_count := ?k + 1\<rparr>)"
      then have i: "i < ?k \<or> i = ?k" by auto
      show "row_is_zero (fst (reduce_rows (?s\<lparr>relation_count := ?k + 1\<rparr>) cw cbw 0 (orig i) combo2)) cw"
      proof (cases "i < ?k")
        case True
        then have "row_is_zero (fst (reduce_rows s cw cbw 0 (orig i) combo2)) cw"
          using rz by (simp add: rereduce_zero_def)
        from rereduce_store_pivot [OF pivot(6) this]
        show ?thesis by (simp add: reduce_rows_count)
      next
        case False
        then have e: "i = ?k" using i by simp
        show ?thesis using rereduce_new_pivot [OF red pivot(7)] by (simp add: e reduce_rows_count)
      qed
    qed
    ultimately show ?thesis using ech pivot(9) by (simp add: engine_inv_def)
  qed
qed

lemma engine_invariant: "engine cw cbw orig s \<Longrightarrow> engine_inv cw cbw orig s"
proof (induction rule: engine.induct)
  case (engine_start s)
  then show ?case
    by (simp add: engine_inv_def pivots_lowest_def pivots_cleared_def combo_inv_def
        combo_support_def rereduce_zero_def)
next
  case (engine_store s rels)
  then show ?case by (simp add: engine_inv_relations)
next
  case (engine_insert s dm dependent dm' s')
  then show ?case using engine_inv_insert by blast
qed


subsection \<open>The two claims about the engine\<close>




text \<open>
  C4 (echelon invariant). After every call of \<^verbatim>\<open>insert_row\<close> in a run of the engine:
  the recorded pivot columns are pairwise distinct, no stored row has a bit at the
  pivot column of a row stored before it, the recorded pivot column of a stored row
  is its lowest set bit, and reducing again any row inserted so far gives the zero
  row.
\<close>

theorem echelon_invariant:
  "engine col_words combo_words orig s \<Longrightarrow>
     pivots_distinct s \<and> pivots_cleared s \<and> pivots_lowest col_words s \<and>
     rereduce_zero col_words combo_words orig s"
proof -
  assume "engine col_words combo_words orig s"
  then have "engine_inv col_words combo_words orig s" by (rule engine_invariant)
  then show ?thesis using pivots_distinctI by (auto simp: engine_inv_def)
qed


subsection \<open>A run of three insertions\<close>

text \<open>
  Two words per row, the second one zero. The first words \<open>3\<close> (bits 0 and 1), \<open>1\<close> (bit 0) and \<open>2\<close> (bit 1) are
  inserted in this order: the first two become pivots, the third one is reduced to
  zero by the second pivot and is reported as the dependency of the relations 0, 1, 2.
\<close>

definition demo_rows :: "nat \<Rightarrow> nat \<Rightarrow> u64" where
  "demo_rows i = (\<lambda>w. if w = 0 then (if i = 0 then 3 else if i = 1 then 1 else if i = 2 then 2 else 0) else 0)"

definition next_session :: "session \<Rightarrow> session" where
  "next_session s =
     (case insert_row s (demo_rows (relation_count s)) (or_bit_row (\<lambda>w. 0) (relation_count s))
             2 2 (\<lambda>w. 0) of
        Inl e \<Rightarrow> s
      | Inr (dependent, dm, s') \<Rightarrow> s'\<lparr>relation_count := relation_count s' + 1\<rparr>)"

lemma engine_next_session:
  assumes "engine 2 2 demo_rows s" "relation_count s < 128" "matrix_rows s < MAX_REL"
  shows "engine 2 2 demo_rows (next_session s)"
proof -
  from insert_row_returns [OF assms(3)]
  obtain dependent dm' s' where
    i: "insert_row s (demo_rows (relation_count s)) (or_bit_row (\<lambda>w. 0) (relation_count s))
          2 2 (\<lambda>w. 0) = Inr (dependent, dm', s')"
    by metis
  have "engine 2 2 demo_rows (s'\<lparr>relation_count := relation_count s' + 1\<rparr>)"
    using assms(1) _ i by (rule engine_insert) (simp add: assms(2))
  then show ?thesis by (simp add: next_session_def i)
qed

lemmas engine_eval =
  insert_row_def reduce_rows.simps row_is_zero_def row_is_zero_from.simps
  first_set_bit_def first_set_bit_from.simps ctzll_def ctz_from.simps xor_rows_def memcpy_words_def
  or_bit_row_def test_bit_row_def MAX_REL_def

lemma demo_session_1:
  "relation_count (next_session empty_session) = 1"
  "matrix_rows (next_session empty_session) = 1"
  "pivot_col (next_session empty_session) 0 = 0"
  "row_bits (next_session empty_session) 0 0 = 3"
  "combo_bits (next_session empty_session) 0 0 = 1"
  by (simp_all add: next_session_def demo_rows_def empty_session_def engine_eval)


definition demo_engine :: session where
  "demo_engine = next_session (next_session empty_session)"

lemma demo_engine_fields:
  "relation_count demo_engine = 2"
  "matrix_rows demo_engine = 2"
  "pivot_col demo_engine 0 = 0"
  "pivot_col demo_engine 1 = 1"
  "row_bits demo_engine 1 0 = 2"
  "combo_bits demo_engine 1 0 = 3"
  by (simp_all add: demo_engine_def next_session_def demo_rows_def empty_session_def engine_eval)

lemma demo_engine_run: "engine 2 2 demo_rows demo_engine"
proof -
  have "engine 2 2 demo_rows empty_session"
    by (rule engine_start) (simp_all add: empty_session_def)
  then have "engine 2 2 demo_rows (next_session empty_session)"
    by (rule engine_next_session) (simp_all add: empty_session_def MAX_REL_def)
  then show ?thesis
    unfolding demo_engine_def
    by (rule engine_next_session) (simp_all add: demo_session_1 MAX_REL_def)
qed



theorem echelon_invariant_witness:
  "engine 2 2 demo_rows demo_engine \<and> matrix_rows demo_engine = 2 \<and>
   pivot_col demo_engine 0 = 0 \<and> pivot_col demo_engine 1 = 1 \<and>
   pivots_distinct demo_engine \<and> pivots_cleared demo_engine \<and> pivots_lowest 2 demo_engine \<and>
   rereduce_zero 2 2 demo_rows demo_engine"
  using echelon_invariant [OF demo_engine_run] demo_engine_run demo_engine_fields by simp

end
